theory Spec2Isabelle
  imports Complex_Main "HOL-Library.Multiset"
begin

section \<open>Python and numpy primitives used by the sources\<close>

text \<open>
  Row indices are natural numbers, counts are Python integers (\<open>int\<close>). The label
  ratios and fractional requests are IEEE doubles in the source; the model computes
  with exact rationals, so it agrees with the source wherever no product falls within
  rounding distance of a tie or of an integer.
\<close>

definition py_int :: "rat \<Rightarrow> int" where
  \<comment> \<open>Python's \<open>int(x)\<close> on a float: truncation toward zero.\<close>
  "py_int q = (if 0 \<le> q then \<lfloor>q\<rfloor> else \<lceil>q\<rceil>)"

definition np_round :: "rat \<Rightarrow> int" where
  \<comment> \<open>\<open>np.round\<close>: to the nearest integer, a tie to the even neighbour.\<close>
  "np_round q =
     (let f = \<lfloor>q\<rfloor>; d = q - of_int f
      in if d < 1 / 2 then f else if 1 / 2 < d then f + 1
         else if even f then f else f + 1)"

definition slice_from :: "'a list \<Rightarrow> int \<Rightarrow> 'a list" where
  \<comment> \<open>\<open>xs[i:]\<close>; a negative bound counts from the end and is clipped at 0.\<close>
  "slice_from xs i =
     (if 0 \<le> i then drop (nat i) xs else drop (nat (int (length xs) + i)) xs)"

definition slice_to :: "'a list \<Rightarrow> int \<Rightarrow> 'a list" where
  \<comment> \<open>\<open>xs[:i]\<close>.\<close>
  "slice_to xs i =
     (if 0 \<le> i then take (nat i) xs else take (nat (int (length xs) + i)) xs)"

section \<open>Processor (processors/base.py)\<close>

text \<open>
  \<open>input_dim\<close> and \<open>output_dim\<close> are abstract properties of the concrete
  processor classes; here they are fields fixed when the processor is built.
  \<open>col_indices\<close> is the attribute \<open>_col_indices\<close> that \<open>__init__\<close> computes.
\<close>

datatype processor =
  Processor (input_dim: nat) (output_dim: nat) (inplace: bool)
    (previous_processors: "processor list") (col_indices: "nat list")

definition init_processor :: "processor list \<Rightarrow> bool \<Rightarrow> nat \<Rightarrow> nat \<Rightarrow> processor" where
  \<comment> \<open>\<open>Processor.__init__\<close>, lines 18-28.\<close>
  "init_processor previous inpl idim odim =
     (let start_idx = sum_list (map input_dim previous)
      in Processor idim odim inpl previous (map (\<lambda>i. start_idx + i) [0..<idim]))"

definition input_indices :: "processor \<Rightarrow> nat list" where
  "input_indices p = col_indices p"

definition output_indices :: "processor \<Rightarrow> nat list" where
  \<comment> \<open>lines 64-67\<close>
  "output_indices p =
     (let previous_dimensions = sum_list (map output_dim (previous_processors p))
      in [previous_dimensions ..< previous_dimensions + output_dim p])"

text \<open>
  The orchestrator's loop (wrapper.py, lines 262-280): every new processor receives a
  copy of the list of the processors placed so far and is then appended to it.
\<close>

fun build_chain :: "processor list \<Rightarrow> (nat \<times> nat) list \<Rightarrow> processor list" where
  "build_chain previous [] = previous"
| "build_chain previous ((idim, odim) # dims) =
     build_chain (previous @ [init_processor previous False idim odim]) dims"

definition chained :: "processor list \<Rightarrow> bool" where
  \<comment> \<open>Each processor was constructed with the ordered list of all that precede it.\<close>
  "chained ps =
     (\<forall>k < length ps.
        ps ! k = init_processor (take k ps) (inplace (ps ! k))
                   (input_dim (ps ! k)) (output_dim (ps ! k)))"

text \<open>
  Arrays live in a store, a list of buffers addressed by position. \<open>columns.copy()\<close>
  allocates a new buffer at the end of the store. The abstract methods \<open>_process\<close>
  and \<open>_recover\<close> are a parameter \<open>body\<close>: given the contents of the buffer they
  are handed, they yield its contents afterwards (they may write into it) and either
  \<open>None\<close>, when they return that same buffer, or \<open>Some v\<close>, a newly built array.
\<close>

type_synonym 'a store = "'a list"

definition np_copy :: "'a store \<Rightarrow> nat \<Rightarrow> 'a store \<times> nat" where
  "np_copy st r = (st @ [st ! r], length st)"

definition run_body :: "('a \<Rightarrow> 'a \<times> 'a option) \<Rightarrow> 'a store \<Rightarrow> nat \<Rightarrow> 'a store \<times> nat" where
  "run_body body st r =
     (case body (st ! r) of
        (buf, None) \<Rightarrow> (st[r := buf], r)
      | (buf, Some v) \<Rightarrow> (st[r := buf] @ [v], length st))"

definition process :: "processor \<Rightarrow> ('a \<Rightarrow> 'a \<times> 'a option) \<Rightarrow> 'a store \<Rightarrow> nat \<Rightarrow> 'a store \<times> nat" where
  \<comment> \<open>lines 84-88\<close>
  "process p body st columns =
     (let (st1, columns1) = (if \<not> inplace p then np_copy st columns else (st, columns))
      in run_body body st1 columns1)"

definition recover :: "processor \<Rightarrow> ('a \<Rightarrow> 'a \<times> 'a option) \<Rightarrow> bool \<Rightarrow> 'a store \<Rightarrow> nat \<Rightarrow> 'a store \<times> nat" where
  \<comment> \<open>lines 90-96; \<open>inpl\<close> is the keyword argument \<open>inplace\<close> of the call.\<close>
  "recover p body inpl st columns =
     (let (st1, columns1) = (if \<not> inpl then np_copy st columns else (st, columns))
      in run_body body st1 columns1)"

section \<open>DataSplitter (utils.py)\<close>

datatype error =
    NotReset               \<comment> \<open>ValueError: please call 'reset' method before calling 'split' method\<close>
  | InsufficientLabels     \<comment> \<open>ValueError: at least L samples are required\<close>
  | OnlyOneLabel           \<comment> \<open>ValueError: only 1 unique label is detected\<close>
  | ReplaceWithTimeSeries  \<comment> \<open>ValueError: replace cannot be True when splitting time series\<close>
  | SomeBelowOne           \<comment> \<open>ValueError: some of the elements (but not all) are less than 1\<close>
  | RatioSumAboveOne       \<comment> \<open>ValueError: sum of n_list should not be greater than 1\<close>
  | RatioSumIsOne          \<comment> \<open>ValueError: sum of n_list should be less than 1\<close>
  | EmptySequence          \<comment> \<open>ValueError of np.hstack and np.argmax on an empty sequence\<close>
  | AssertionError
  | OverflowError          \<comment> \<open>int() of an infinite float\<close>
  | TypeError
  | IndexError
  | FloatCount             \<comment> \<open>a float request of 1 or more: outside the model\<close>

text \<open>
  A request \<open>n\<close> is a Python int (\<open>Count\<close>) or a Python float (\<open>Frac\<close>). The model
  follows a float only when it is below 1, where \<open>split\<close> converts it to a count;
  a float of 1 or more that is below the pool size ends in \<open>FloatCount\<close>.
\<close>

datatype request = Count int | Frac rat

fun req_val :: "request \<Rightarrow> rat" where
  "req_val (Count k) = of_int k"
| "req_val (Frac q) = q"

fun is_Count :: "request \<Rightarrow> bool" where
  "is_Count (Count k) = True"
| "is_Count (Frac q) = False"

text \<open>
  The random source: \<open>g i xs\<close> is the outcome of the \<open>i\<close>-th shuffle a call makes,
  applied to \<open>xs\<close>. A genuine source returns a permutation.
\<close>

type_synonym rng = "nat \<Rightarrow> nat list \<Rightarrow> nat list"

definition permuting :: "rng \<Rightarrow> bool" where
  "permuting g = (\<forall>i xs. mset (g i xs) = mset xs)"

text \<open>
  \<open>SplitResult\<close>. The dataset of a result is \<open>x[idx], y[idx]\<close> for an index array
  \<open>idx\<close>; the model records that index array as \<open>dataset_rows\<close>.
\<close>

record split_result =
  dataset_rows :: "nat list"
  corresponding_indices :: "nat list"
  remaining_indices :: "nat list"

text \<open>
  The splitter's attributes. \<open>x_len\<close> is \<open>len(self._x)\<close>, \<open>labels\<close> is
  \<open>self._y.ravel()\<close>, \<open>is_time_series\<close> is \<open>time_series_config is not None\<close>.
\<close>

record splitter =
  x_len :: nat
  labels :: "int list"
  is_regression :: bool
  time_column :: "int list option"
  is_time_series :: bool
  shuffle :: bool
  replace :: bool
  remained_indices :: "nat list option"
  time_indices_list :: "nat list list option"
  time_indices_list_in_use :: "nat list list option"
  label_indices_list :: "nat list list option"
  label_indices_list_in_use :: "nat list list option"
  times_counts_cumsum :: "int list"
  times_counts_cumsum_in_use :: "int list"
  time_series_sorting_indices :: "nat list"
  label_ratios :: "rat list"
  n_unique_labels :: nat
  n_samples :: nat

text \<open>
  The dataset handed to \<open>fit\<close>: its number of rows, its flattened labels, whether
  its task type is regression, and the time column. \<open>fit\<close> cuts the id and time
  columns out of \<open>x\<close> (lines 235-257); the model takes the time column it obtains
  as given.
\<close>

record tabular_dataset =
  ds_rows :: nat
  ds_labels :: "int list"
  ds_is_regression :: bool
  ds_time_values :: "int list"

definition np_hstack :: "nat list list \<Rightarrow> error + nat list" where
  "np_hstack xss = (if xss = [] then Inl EmptySequence else Inr (concat xss))"

fun cumsum_from :: "int \<Rightarrow> int list \<Rightarrow> int list" where
  "cumsum_from a [] = []"
| "cumsum_from a (x # xs) = (a + x) # cumsum_from (a + x) xs"

definition np_cumsum :: "int list \<Rightarrow> int list" where
  "np_cumsum xs = cumsum_from 0 xs"

definition np_argmax_ge :: "int list \<Rightarrow> int \<Rightarrow> nat" where
  \<comment> \<open>\<open>np.argmax(cs >= n)\<close> on a non-empty array: the first position holding a value
      of at least \<open>n\<close>, and 0 when there is none.\<close>
  "np_argmax_ge cs n =
     (let k = length (takeWhile (\<lambda>c. c < n) cs) in if k < length cs then k else 0)"

definition np_delete :: "'a list \<Rightarrow> nat list \<Rightarrow> 'a list" where
  \<comment> \<open>\<open>np.delete(arr, pop)\<close> for positions within the array.\<close>
  "np_delete arr pop = map snd (filter (\<lambda>(i, x). i \<notin> set pop) (zip [0..<length arr] arr))"

definition get_unique_indices :: "int list \<Rightarrow> int list \<times> nat list \<times> nat list list" where
  \<comment> \<open>\<open>cftool.misc.get_unique_indices\<close>, a function of an external library: the
      unique values in ascending order, how often each occurs, and for each the
      positions holding it, in ascending order (\<open>np.unique\<close> and a stable argsort).\<close>
  "get_unique_indices arr =
     (let u = sort (remdups arr)
      in (u, map (\<lambda>v. count_list arr v) u,
          map (\<lambda>v. filter (\<lambda>i. arr ! i = v) [0..<length arr]) u))"

subsection \<open>Construction, fit and reset\<close>

definition blank_splitter :: "bool \<Rightarrow> bool \<Rightarrow> bool \<Rightarrow> splitter" where
  \<comment> \<open>the attributes as \<open>__init__\<close> sets them; the ones it leaves unset are given
      empty values\<close>
  "blank_splitter has_time_series_config shuffle_arg replace_arg =
     \<lparr>x_len = 0, labels = [], is_regression = False, time_column = None,
      is_time_series = has_time_series_config,
      shuffle = shuffle_arg, replace = replace_arg,
      remained_indices = None,
      time_indices_list = None, time_indices_list_in_use = None,
      label_indices_list = None, label_indices_list_in_use = None,
      times_counts_cumsum = [], times_counts_cumsum_in_use = [],
      time_series_sorting_indices = [],
      label_ratios = [], n_unique_labels = 0, n_samples = 0\<rparr>"

definition init_splitter :: "bool \<Rightarrow> bool \<Rightarrow> bool \<Rightarrow> error + splitter" where
  \<comment> \<open>\<open>__init__\<close>, lines 38-60; the first argument says whether a
      \<open>time_series_config\<close> (with both of its columns) was given.\<close>
  "init_splitter has_time_series_config shuffle_arg replace_arg =
     (if has_time_series_config \<and> replace_arg then Inl ReplaceWithTimeSeries
      else Inr (blank_splitter has_time_series_config shuffle_arg replace_arg))"

definition reset_reg :: "rng \<Rightarrow> splitter \<Rightarrow> error option \<times> splitter" where
  \<comment> \<open>lines 99-105\<close>
  "reset_reg g s =
     (None, s\<lparr>remained_indices :=
        Some (if \<not> shuffle s then [0..<x_len s] else g 0 [0..<x_len s])\<rparr>)"

definition shuffled_lists :: "rng \<Rightarrow> bool \<Rightarrow> nat list list \<Rightarrow> nat list list" where
  \<comment> \<open>line 139-140: every list is shuffled in place when \<open>shuffle\<close> is set\<close>
  "shuffled_lists g sh arrs =
     (if sh then map (\<lambda>(i, xs). g i xs) (zip [0..<length arrs] arrs) else arrs)"

definition reset_clf :: "rng \<Rightarrow> splitter \<Rightarrow> error option \<times> splitter" where
  \<comment> \<open>lines 107-120, with \<open>_reset_indices_list\<close> (lines 137-143) for the labels\<close>
  "reset_clf g s =
     (let (failed, s1) =
        (case label_indices_list s of
           Some arrs \<Rightarrow> (False, s)
         | None \<Rightarrow>
             (let (unique_labels, counts, split_indices) = get_unique_indices (labels s);
                  s' = s\<lparr>label_indices_list := Some split_indices,
                          n_samples := length (labels s),
                          label_ratios :=
                            map (\<lambda>c. of_nat c / of_nat (length (labels s))) counts,
                          n_unique_labels := length unique_labels\<rparr>
              in (length unique_labels = 1, s')))
      in if failed then (Some OnlyOneLabel, s1)
         else case label_indices_list s1 of
           None \<Rightarrow> (Some TypeError, s1)
         | Some arrs \<Rightarrow>
             (let arrs' = shuffled_lists g (shuffle s1) arrs;
                  s2 = s1\<lparr>label_indices_list := Some arrs',
                          label_indices_list_in_use := Some arrs'\<rparr>
              in case np_hstack arrs' of
                   Inl e \<Rightarrow> (Some e, s2)
                 | Inr pool \<Rightarrow> (None, s2\<lparr>remained_indices := Some pool\<rparr>)))"

definition reset_time_series :: "rng \<Rightarrow> splitter \<Rightarrow> error option \<times> splitter" where
  \<comment> \<open>lines 122-135, with \<open>_reset_indices_list\<close> for the time groups\<close>
  "reset_time_series g s =
     (case time_column s of
        None \<Rightarrow> (Some TypeError, s)
      | Some tc \<Rightarrow>
          (let (failed, s1) =
             (case time_indices_list s of
                Some arrs \<Rightarrow> (None, s)
              | None \<Rightarrow>
                  (let (unique_times, counts, split_indices) = get_unique_indices tc;
                       cs = np_cumsum (map int (rev counts));
                       s' = s\<lparr>time_indices_list := Some (rev split_indices),
                               times_counts_cumsum := cs\<rparr>
                   in if cs = [] then (Some IndexError, s')
                      else if last cs \<noteq> int (length tc) then (Some AssertionError, s')
                      else (None, s'\<lparr>time_series_sorting_indices := concat split_indices\<rparr>)))
           in case failed of
                Some e \<Rightarrow> (Some e, s1)
              | None \<Rightarrow>
                  (case time_indices_list s1 of
                     None \<Rightarrow> (Some TypeError, s1)
                   | Some arrs \<Rightarrow>
                       (let arrs' = shuffled_lists g (shuffle s1) arrs;
                            s2 = s1\<lparr>time_indices_list := Some arrs',
                                    time_indices_list_in_use := Some arrs'\<rparr>
                        in case np_hstack arrs' of
                             Inl e \<Rightarrow> (Some e, s2)
                           | Inr pool \<Rightarrow>
                               (None, s2\<lparr>remained_indices := Some pool,
                                         times_counts_cumsum_in_use :=
                                           times_counts_cumsum s2\<rparr>)))))"

definition reset :: "rng \<Rightarrow> splitter \<Rightarrow> error option \<times> splitter" where
  \<comment> \<open>lines 260-267\<close>
  "reset g s =
     (if time_column s \<noteq> None then reset_time_series g s
      else if is_regression s then reset_reg g s
      else reset_clf g s)"

definition fit :: "rng \<Rightarrow> splitter \<Rightarrow> tabular_dataset \<Rightarrow> error option \<times> splitter" where
  \<comment> \<open>lines 226-258\<close>
  "fit g s ds =
     reset g (s\<lparr>x_len := ds_rows ds, labels := ds_labels ds,
                is_regression := ds_is_regression ds,
                time_column :=
                  (if \<not> is_time_series s then None else Some (ds_time_values ds))\<rparr>)"

subsection \<open>The three split methods\<close>

text \<open>
  Every method returns what the source returns or raises, together with the splitter
  as the call leaves it, so that what an exception leaves behind is part of the model.
\<close>

definition split_reg :: "rng \<Rightarrow> splitter \<Rightarrow> int \<Rightarrow> (error + nat list) \<times> splitter" where
  \<comment> \<open>lines 147-154. \<open>tgt_indices\<close> is a basic slice, hence a view of the pool's
      buffer with bounds fixed when it is taken; \<open>np.random.shuffle\<close> permutes that
      buffer in place, so with \<open>replace\<close> the view shows the shuffled contents.\<close>
  "split_reg g s n =
     (case remained_indices s of
        None \<Rightarrow> (Inl TypeError, s)
      | Some pool \<Rightarrow>
          (let tgt_indices = slice_from pool (- n);
               n1 = min n (int (length pool) - 1)
           in if replace s then
                (let pool' = g 0 pool
                 in (Inr (slice_from pool' (- n)), s\<lparr>remained_indices := Some pool'\<rparr>))
              else if 0 < n1 then
                (Inr tgt_indices, s\<lparr>remained_indices := Some (slice_to pool (- n1))\<rparr>)
              else (Inr tgt_indices, s)))"

definition samples_per_label :: "rat list \<Rightarrow> int \<Rightarrow> int list" where
  \<comment> \<open>line 163\<close>
  "samples_per_label ratios n = map (\<lambda>r. max 1 (np_round (of_int n * r))) ratios"

definition sub_sign_at :: "int \<Rightarrow> nat list \<Rightarrow> int list \<Rightarrow> int list" where
  \<comment> \<open>\<open>n_samples_per_label[idxs] -= sign\<close>, for positions that are all different\<close>
  "sub_sign_at sign idxs ks = fold (\<lambda>i ks. ks[i := ks ! i - sign]) idxs ks"

definition adjust_counts :: "rng \<Rightarrow> int list \<Rightarrow> int \<Rightarrow> error + int list" where
  \<comment> \<open>lines 165-178. The mask \<open>n_samples_per_label != 1\<close> has one entry per label, so
      \<open>arange(n_unique_labels)\<close> is \<open>[0..<length ks]\<close>. With no label chosen the
      division by zero gives infinity, which \<open>int\<close> refuses.\<close>
  "adjust_counts g ks n =
     (let n_samples_exceeded = sum_list ks - n
      in if n_samples_exceeded = 0 then Inr ks
         else
           (let sign = sgn n_samples_exceeded;
                exceeded = \<bar>n_samples_exceeded\<bar>;
                chosen_indices = g 0 (filter (\<lambda>i. ks ! i \<noteq> 1) [0..<length ks]);
                n_chosen_indices = int (length chosen_indices)
            in if n_chosen_indices = 0 then Inl OverflowError
               else
                 (let n_tile = \<lceil>rat_of_int exceeded / rat_of_int n_chosen_indices\<rceil>;
                      ks1 = ((sub_sign_at sign chosen_indices) ^^ nat (n_tile - 1)) ks;
                      n_proceeded = (n_tile - 1) * n_chosen_indices
                  in Inr (sub_sign_at sign
                            (slice_to chosen_indices (exceeded - n_proceeded)) ks1))))"

definition retired :: "nat list \<times> int \<Rightarrow> bool" where
  \<comment> \<open>line 184\<close>
  "retired p = (case p of (indices, k) \<Rightarrow> int (length indices) - 1 \<le> k)"

definition pop_indices :: "nat list \<times> int \<Rightarrow> nat list" where
  \<comment> \<open>lines 184-188\<close>
  "pop_indices p =
     (case p of (indices, k) \<Rightarrow>
        if retired (indices, k) then []
        else [nat (int (length indices) - k) ..< length indices])"

definition split_clf :: "rng \<Rightarrow> splitter \<Rightarrow> int \<Rightarrow> (error + nat list) \<times> splitter" where
  \<comment> \<open>lines 156-204\<close>
  "split_clf g s n =
     (if n < int (n_unique_labels s) then (Inl InsufficientLabels, s)
      else case adjust_counts g (samples_per_label (label_ratios s) n) n of
        Inl e \<Rightarrow> (Inl e, s)
      | Inr ks \<Rightarrow>
          if sum_list ks \<noteq> n then (Inl AssertionError, s)
          else case label_indices_list_in_use s of
            None \<Rightarrow> (Inl TypeError, s)
          | Some in_use \<Rightarrow>
              (let pairs = zip in_use ks;
                   tgt_indices_list = map (\<lambda>(indices, k). slice_from indices (- k)) pairs;
                   pop_indices_list = map pop_indices pairs;
                   n_overlap = sum_list (map snd (filter retired pairs))
               in case np_hstack tgt_indices_list of
                    Inl e \<Rightarrow> (Inl e, s)
                  | Inr tgt_indices \<Rightarrow>
                      if replace s then
                        (let in_use' = map (\<lambda>(i, xs). g (Suc i) xs)
                                         (zip [0..<length in_use] in_use);
                             s1 = s\<lparr>label_indices_list_in_use := Some in_use'\<rparr>
                         in case np_hstack in_use' of
                              Inl e \<Rightarrow> (Inl e, s1)
                            | Inr pool \<Rightarrow>
                                (Inr tgt_indices, s1\<lparr>remained_indices := Some pool\<rparr>))
                      else
                        (let in_use' = map (\<lambda>(arr, pop). np_delete arr pop)
                                         (zip in_use pop_indices_list);
                             s1 = s\<lparr>label_indices_list_in_use := Some in_use'\<rparr>
                         in case np_hstack in_use' of
                              Inl e \<Rightarrow> (Inl e, s1)
                            | Inr remain_indices \<Rightarrow>
                                if list_ex (\<lambda>i. n_samples s \<le> i) (tgt_indices @ remain_indices)
                                then (Inl IndexError, s1)
                                else if n_overlap <
                                     int (length (filter
                                       (\<lambda>i. i \<in> set tgt_indices \<and> i \<in> set remain_indices)
                                       [0..<n_samples s]))
                                then (Inl AssertionError, s1)
                                else (Inr tgt_indices,
                                      s1\<lparr>remained_indices := Some remain_indices\<rparr>))))"

definition split_time_series :: "splitter \<Rightarrow> int \<Rightarrow> (error + nat list) \<times> splitter" where
  \<comment> \<open>lines 206-224\<close>
  "split_time_series s n =
     (let cs = times_counts_cumsum_in_use s
      in if cs = [] then (Inl EmptySequence, s)
         else case time_indices_list_in_use s of
           None \<Rightarrow> (Inl TypeError, s)
         | Some in_use \<Rightarrow>
             (let split_arg = np_argmax_ge cs n;
                  n_left = cs ! split_arg - n;
                  n_res = (if split_arg = 0 then n else n - cs ! (split_arg - 1));
                  selected_indices = (if split_arg = 0 then [] else take split_arg in_use);
                  in_use1 = (if split_arg = 0 then in_use else drop split_arg in_use);
                  cs1 = (if split_arg = 0 then cs else drop split_arg cs);
                  s1 = s\<lparr>time_indices_list_in_use := Some in_use1,
                          times_counts_cumsum_in_use := cs1\<rparr>
              in case in_use1 of
                   [] \<Rightarrow> (Inl IndexError, s1)
                 | grp # rest \<Rightarrow>
                     (let selected = selected_indices @ [slice_to grp n_res];
                          in_use2 = (if 0 < n_left then slice_from grp n_res # rest else rest);
                          cs2 = (if 0 < n_left then cs1 else drop 1 cs1);
                          s2 = s\<lparr>time_indices_list_in_use := Some in_use2,
                                  times_counts_cumsum_in_use := cs2\<rparr>
                      in case np_hstack in_use2 of
                           Inl e \<Rightarrow> (Inl e, s2)
                         | Inr pool \<Rightarrow>
                             (Inr (rev (concat selected)),
                              s2\<lparr>remained_indices := Some pool,
                                  times_counts_cumsum_in_use := map (\<lambda>c. c - n) cs2\<rparr>))))"

subsection \<open>split and split\_multiple\<close>

definition to_count :: "nat \<Rightarrow> request \<Rightarrow> int option" where
  \<comment> \<open>lines 282-283: a request below 1 becomes \<open>int(len(x) * n)\<close>\<close>
  "to_count n_total r =
     (if req_val r < 1 then Some (py_int (of_nat n_total * req_val r))
      else case r of Count k \<Rightarrow> Some k | Frac q \<Rightarrow> None)"

definition split :: "rng \<Rightarrow> splitter \<Rightarrow> request \<Rightarrow> (error + split_result) \<times> splitter" where
  \<comment> \<open>lines 269-292\<close>
  "split g s r =
     (if is_regression s \<and> remained_indices s = None then (Inl NotReset, s)
      else if \<not> is_regression s \<and> label_indices_list_in_use s = None then (Inl NotReset, s)
      else case remained_indices s of
        None \<Rightarrow> (Inl TypeError, s)
      | Some pool \<Rightarrow>
          if of_nat (length pool) \<le> req_val r then
            (Inr \<lparr>dataset_rows = rev pool, corresponding_indices = pool,
                  remaining_indices = []\<rparr>, s)
          else case to_count (x_len s) r of
            None \<Rightarrow> (Inl FloatCount, s)
          | Some n \<Rightarrow>
              (case (if is_time_series s then split_time_series s n
                     else if is_regression s then split_reg g s n
                     else split_clf g s n) of
                 (Inl e, s') \<Rightarrow> (Inl e, s')
               | (Inr tgt_indices, s') \<Rightarrow>
                   if int (length tgt_indices) \<noteq> n then (Inl AssertionError, s')
                   else (Inr \<lparr>dataset_rows = tgt_indices,
                               corresponding_indices = tgt_indices,
                               remaining_indices =
                                 (case remained_indices s' of None \<Rightarrow> [] | Some p \<Rightarrow> p)\<rparr>,
                         s')))"

definition remainder_request :: "nat \<Rightarrow> request list \<Rightarrow> request" where
  \<comment> \<open>line 304: \<open>n_total - sum(n_list)\<close>, an int when every element is one\<close>
  "remainder_request n_total n_list =
     (if list_all is_Count n_list
      then Count (int n_total - \<lfloor>sum_list (map req_val n_list)\<rfloor>)
      else Frac (of_nat n_total - sum_list (map req_val n_list)))"

definition convert_requests :: "nat \<Rightarrow> request list \<Rightarrow> bool \<Rightarrow> error + request list" where
  \<comment> \<open>lines 298-316: the list that \<open>split_multiple\<close> maps \<open>split\<close> over\<close>
  "convert_requests n_total n_list return_remained =
     (if \<not> list_all (\<lambda>n. req_val n \<le> 1) n_list then
        if list_ex (\<lambda>n. req_val n < 1) n_list then Inl SomeBelowOne
        else if return_remained then Inr (n_list @ [remainder_request n_total n_list])
        else Inr n_list
      else
        (let ratio_sum = sum_list (map req_val n_list)
         in if 1 < ratio_sum then Inl RatioSumAboveOne
            else if return_remained \<and> ratio_sum = 1 then Inl RatioSumIsOne
            else
              (let n_selected = py_int (of_nat n_total * ratio_sum);
                   heads = map (\<lambda>n. py_int (of_nat n_total * req_val n)) (butlast n_list)
               in if n_list = [] then Inl IndexError
                  else
                    (let counts = heads @ [n_selected - sum_list heads]
                     in Inr (map Count
                          (if ratio_sum < 1 then counts @ [int n_total - n_selected]
                           else counts))))))"

fun split_all :: "(nat \<Rightarrow> rng) \<Rightarrow> nat \<Rightarrow> splitter \<Rightarrow> request list
    \<Rightarrow> (error + split_result list) \<times> splitter" where
  \<comment> \<open>\<open>list(map(self.split, n_list))\<close>; the \<open>k\<close>-th call draws from \<open>gs k\<close>\<close>
  "split_all gs k s [] = (Inr [], s)"
| "split_all gs k s (n # ns) =
     (case split (gs k) s n of
        (Inl e, s') \<Rightarrow> (Inl e, s')
      | (Inr res, s') \<Rightarrow>
          (case split_all gs (Suc k) s' ns of
             (Inl e, s'') \<Rightarrow> (Inl e, s'')
           | (Inr results, s'') \<Rightarrow> (Inr (res # results), s'')))"

definition split_multiple :: "(nat \<Rightarrow> rng) \<Rightarrow> splitter \<Rightarrow> request list \<Rightarrow> bool
    \<Rightarrow> (error + split_result list) \<times> splitter" where
  \<comment> \<open>lines 294-317\<close>
  "split_multiple gs s n_list return_remained =
     (case convert_requests (x_len s) n_list return_remained of
        Inl e \<Rightarrow> (Inl e, s)
      | Inr ns \<Rightarrow> split_all gs 0 s ns)"

subsection \<open>Readiness of a time series splitter\<close>

definition ts_ready :: "splitter \<Rightarrow> nat list list \<Rightarrow> bool" where
  \<comment> \<open>what \<open>reset\<close> establishes on the time series path for a regression dataset,
      and every \<open>split\<close> below the pool size keeps: the pool is the concatenation
      of the groups in use, none of them empty, and the cumulative counts are theirs\<close>
  "ts_ready s in_use =
     (is_time_series s \<and> is_regression s
      \<and> time_indices_list_in_use s = Some in_use
      \<and> remained_indices s = Some (concat in_use)
      \<and> times_counts_cumsum_in_use s = np_cumsum (map (\<lambda>grp. int (length grp)) in_use)
      \<and> [] \<notin> set in_use)"

subsection \<open>Readiness of a classification splitter\<close>

text \<open>
  What \<open>fit\<close> and \<open>reset\<close> leave behind for a classification dataset when the
  splitter draws without replacement: one list of row indices per label, the lists
  without a common row, every row below \<open>n_samples\<close>, and one ratio per label.
\<close>

definition clf_ready :: "splitter \<Rightarrow> nat list list \<Rightarrow> bool" where
  "clf_ready s in_use =
     (\<not> replace s
      \<and> label_indices_list_in_use s = Some in_use
      \<and> in_use \<noteq> []
      \<and> length in_use = n_unique_labels s
      \<and> length (label_ratios s) = n_unique_labels s
      \<and> list_all (\<lambda>r. 0 \<le> r) (label_ratios s)
      \<and> distinct (concat in_use)
      \<and> list_all (\<lambda>i. i < n_samples s) (concat in_use))"

subsection \<open>Fitted splitters used as examples\<close>

definition clf_example :: splitter where
  \<comment> \<open>the splitter after \<open>fit\<close> on five rows with labels 0, 0, 0, 1, 1, without
      shuffling and without replacement\<close>
  "clf_example =
     \<lparr>x_len = 5, labels = [0, 0, 0, 1, 1], is_regression = False,
      time_column = None, is_time_series = False, shuffle = False,
      replace = False, remained_indices = Some [0, 1, 2, 3, 4],
      time_indices_list = None, time_indices_list_in_use = None,
      label_indices_list = Some [[0, 1, 2], [3, 4]],
      label_indices_list_in_use = Some [[0, 1, 2], [3, 4]],
      times_counts_cumsum = [], times_counts_cumsum_in_use = [],
      time_series_sorting_indices = [], label_ratios = [3 / 5, 2 / 5],
      n_unique_labels = 2, n_samples = 5\<rparr>"

definition reg_example :: splitter where
  \<comment> \<open>the splitter after \<open>fit\<close> on a regression dataset of ten rows, without
      shuffling and without replacement\<close>
  "reg_example =
     \<lparr>x_len = 10, labels = [], is_regression = True, time_column = None,
      is_time_series = False, shuffle = False, replace = False,
      remained_indices = Some [0, 1, 2, 3, 4, 5, 6, 7, 8, 9],
      time_indices_list = None, time_indices_list_in_use = None,
      label_indices_list = None, label_indices_list_in_use = None,
      times_counts_cumsum = [], times_counts_cumsum_in_use = [],
      time_series_sorting_indices = [], label_ratios = [],
      n_unique_labels = 0, n_samples = 0\<rparr>"


definition ts_example :: splitter where
  \<comment> \<open>the time series splitter after \<open>fit\<close> on a regression dataset of six rows
      with the times 1, 1, 2, 2, 3, 3, without shuffling\<close>
  "ts_example =
     \<lparr>x_len = 6, labels = [], is_regression = True,
      time_column = Some [1, 1, 2, 2, 3, 3], is_time_series = True,
      shuffle = False, replace = False,
      remained_indices = Some [4, 5, 2, 3, 0, 1],
      time_indices_list = Some [[4, 5], [2, 3], [0, 1]],
      time_indices_list_in_use = Some [[4, 5], [2, 3], [0, 1]],
      label_indices_list = None, label_indices_list_in_use = None,
      times_counts_cumsum = [2, 4, 6], times_counts_cumsum_in_use = [2, 4, 6],
      time_series_sorting_indices = [0, 1, 2, 3, 4, 5], label_ratios = [],
      n_unique_labels = 0, n_samples = 0\<rparr>"

section \<open>Processor chain: column offsets\<close>

lemma map_add_upt_offset: "map (\<lambda>i. s + i) [0..<d] = [s..<s + d]"
  by (induction d) simp_all

lemma input_indices_init:
  "input_indices (init_processor previous inpl idim odim) =
     [sum_list (map input_dim previous) ..< sum_list (map input_dim previous) + idim]"
  by (simp add: input_indices_def init_processor_def Let_def map_add_upt_offset)

lemma output_indices_init:
  "output_indices (init_processor previous inpl idim odim) =
     [sum_list (map output_dim previous) ..< sum_list (map output_dim previous) + odim]"
  by (simp add: output_indices_def init_processor_def Let_def)

lemma init_processor_sel [simp]:
  "input_dim (init_processor previous inpl idim odim) = idim"
  "output_dim (init_processor previous inpl idim odim) = odim"
  "inplace (init_processor previous inpl idim odim) = inpl"
  "previous_processors (init_processor previous inpl idim odim) = previous"
  by (simp_all add: init_processor_def Let_def)

lemma chained_snoc:
  assumes "chained ps"
  shows "chained (ps @ [init_processor ps inpl idim odim])"
  unfolding chained_def
proof (intro allI impI)
  fix k
  assume k: "k < length (ps @ [init_processor ps inpl idim odim])"
  show "(ps @ [init_processor ps inpl idim odim]) ! k =
        init_processor (take k (ps @ [init_processor ps inpl idim odim]))
          (inplace ((ps @ [init_processor ps inpl idim odim]) ! k))
          (input_dim ((ps @ [init_processor ps inpl idim odim]) ! k))
          (output_dim ((ps @ [init_processor ps inpl idim odim]) ! k))"
  proof (cases "k < length ps")
    case True
    with assms show ?thesis
      by (simp add: chained_def nth_append)
  next
    case False
    with k have "k = length ps" by simp
    then show ?thesis by simp
  qed
qed

lemma chained_build_chain: "chained previous \<Longrightarrow> chained (build_chain previous dims)"
  by (induction previous dims rule: build_chain.induct) (simp_all add: chained_snoc)

lemma chained_Nil: "chained []"
  by (simp add: chained_def)

text \<open>
  Claim C2. In a chain where every processor was constructed with the ordered list of
  the processors before it, the processor at position \<open>k\<close> has as input indices the
  contiguous range that starts at the sum of the input dimensions of the processors
  before it and has its own input dimension as length, and as output indices the
  range that starts at the sum of the output dimensions before it and has its output
  dimension as length.
\<close>

theorem processor_offsets:
  assumes "chained ps" and "k < length ps"
  shows "input_indices (ps ! k) =
           [sum_list (map input_dim (take k ps)) ..<
            sum_list (map input_dim (take k ps)) + input_dim (ps ! k)]
       \<and> output_indices (ps ! k) =
           [sum_list (map output_dim (take k ps)) ..<
            sum_list (map output_dim (take k ps)) + output_dim (ps ! k)]"
proof -
  from assms have eq: "ps ! k = init_processor (take k ps) (inplace (ps ! k))
      (input_dim (ps ! k)) (output_dim (ps ! k))"
    by (simp add: chained_def)
  have "input_indices (ps ! k) =
      [sum_list (map input_dim (take k ps)) ..<
       sum_list (map input_dim (take k ps)) + input_dim (ps ! k)]"
    by (subst eq) (simp only: input_indices_init)
  moreover have "output_indices (ps ! k) =
      [sum_list (map output_dim (take k ps)) ..<
       sum_list (map output_dim (take k ps)) + output_dim (ps ! k)]"
    by (subst eq) (simp only: output_indices_init)
  ultimately show ?thesis by simp
qed

theorem processor_offsets_witness:
  "chained (build_chain [] [(1, 3), (2, 2), (1, 1)])
   \<and> input_indices (build_chain [] [(1, 3), (2, 2), (1, 1)] ! 2) = [3]
   \<and> output_indices (build_chain [] [(1, 3), (2, 2), (1, 1)] ! 2) = [5]"
proof -
  have c: "chained (build_chain [] [(1, 3), (2, 2), (1, 1)])"
    by (rule chained_build_chain [OF chained_Nil])
  have k: "2 < length (build_chain [] [(1, 3), (2, 2), (1, 1)])"
    by simp
  from processor_offsets [OF c k] c show ?thesis
    by (simp add: nth_append)
qed

section \<open>Processor: copy unless in place\<close>

lemma run_body_after_copy:
  "take (length st) (fst (run_body body (st @ [b]) (length st))) = st"
  by (simp add: run_body_def split: prod.splits option.splits)

text \<open>
  Claim C8. When the processor was constructed with \<open>inplace=False\<close>, \<open>process\<close>
  leaves every buffer that existed before the call as it was, the caller's input
  array among them; so does \<open>recover\<close> called with \<open>inplace=False\<close>. The transform
  itself runs on a newly allocated copy.
\<close>

theorem process_recover_private_copy:
  "(\<not> inplace p \<longrightarrow> take (length st) (fst (process p body st columns)) = st)
   \<and> take (length st) (fst (recover p body False st columns)) = st"
  by (simp add: process_def recover_def np_copy_def run_body_after_copy)

theorem process_recover_private_copy_witness:
  "\<not> inplace (init_processor [] False 1 1)
   \<and> fst (process (init_processor [] False 1 1)
        (\<lambda>b. (map (\<lambda>v. v + 1) b, None)) [[1, 2, 3 :: int]] 0) ! 0 = [1, 2, 3]
   \<and> snd (process (init_processor [] False 1 1)
        (\<lambda>b. (map (\<lambda>v. v + 1) b, None)) [[1, 2, 3 :: int]] 0) = 1
   \<and> fst (process (init_processor [] False 1 1)
        (\<lambda>b. (map (\<lambda>v. v + 1) b, None)) [[1, 2, 3 :: int]] 0) ! 1 = [2, 3, 4]
   \<and> fst (recover (init_processor [] False 1 1)
        (\<lambda>b. (map (\<lambda>v. v - 1) b, None)) False [[1, 2, 3 :: int]] 0) ! 0 = [1, 2, 3]"
proof -
  have n: "\<not> inplace (init_processor [] False 1 1)" by simp
  have "take (length [[1, 2, 3 :: int]])
          (fst (process (init_processor [] False 1 1)
             (\<lambda>b. (map (\<lambda>v. v + 1) b, None)) [[1, 2, 3 :: int]] 0)) = [[1, 2, 3]]"
    using process_recover_private_copy
      [of "init_processor [] False 1 1" "[[1, 2, 3 :: int]]"
          "\<lambda>b. (map (\<lambda>v. v + 1) b, None)" 0] n
    by blast
  then show ?thesis
    by (simp add: process_def recover_def np_copy_def run_body_def)
qed

section \<open>DataSplitter: a time series configuration with a classification dataset\<close>

lemma reset_time_series_keeps:
  "label_indices_list_in_use (snd (reset_time_series g s)) = label_indices_list_in_use s
   \<and> is_regression (snd (reset_time_series g s)) = is_regression s
   \<and> time_column (snd (reset_time_series g s)) = time_column s"
  by (auto simp: reset_time_series_def Let_def
      split: option.splits prod.splits sum.splits if_splits)

lemma init_splitter_fields:
  "init_splitter ts sh rp = Inr s0 \<Longrightarrow>
     is_time_series s0 = ts \<and> label_indices_list_in_use s0 = None \<and> time_column s0 = None"
  by (auto simp: init_splitter_def blank_splitter_def split: if_splits)

lemma fit_time_series_label_lists:
  assumes "init_splitter True sh rp = Inr s0" and "\<not> ds_is_regression ds"
  shows "label_indices_list_in_use (snd (fit g s0 ds)) = None
       \<and> \<not> is_regression (snd (fit g s0 ds))
       \<and> time_column (snd (fit g s0 ds)) \<noteq> None"
  using assms init_splitter_fields [OF assms(1)]
  by (simp add: fit_def reset_def reset_time_series_keeps)

text \<open>
  Claim C9. A splitter constructed with a time series configuration and fitted on a
  dataset whose task type is not regression answers every \<open>split\<close>, whatever the
  request, with the not-reset error: directly after \<open>fit\<close> (which ends with
  \<open>reset\<close>) and after a further \<open>reset\<close>. The reset of the time series path never
  builds the per-label lists that the readiness check of \<open>split\<close> inspects.
\<close>

theorem split_time_series_non_regression_not_reset:
  assumes "init_splitter True sh rp = Inr s0" and "\<not> ds_is_regression ds"
  shows "fst (split g1 (snd (fit g s0 ds)) r) = Inl NotReset
       \<and> fst (split g1 (snd (reset g2 (snd (fit g s0 ds)))) r) = Inl NotReset"
  using fit_time_series_label_lists [OF assms, of g]
  by (simp add: split_def reset_def reset_time_series_keeps)

theorem split_time_series_non_regression_not_reset_witness:
  "init_splitter True False False = Inr (blank_splitter True False False)
   \<and> fit (\<lambda>i xs. xs) (blank_splitter True False False)
        \<lparr>ds_rows = 3, ds_labels = [0, 1, 1], ds_is_regression = False,
         ds_time_values = [1, 2, 3]\<rparr>
      = (None, \<lparr>x_len = 3, labels = [0, 1, 1], is_regression = False,
           time_column = Some [1, 2, 3], is_time_series = True, shuffle = False,
           replace = False, remained_indices = Some [2, 1, 0],
           time_indices_list = Some [[2], [1], [0]],
           time_indices_list_in_use = Some [[2], [1], [0]],
           label_indices_list = None, label_indices_list_in_use = None,
           times_counts_cumsum = [1, 2, 3], times_counts_cumsum_in_use = [1, 2, 3],
           time_series_sorting_indices = [0, 1, 2], label_ratios = [],
           n_unique_labels = 0, n_samples = 0\<rparr>)
   \<and> fst (split (\<lambda>i xs. xs)
        (snd (fit (\<lambda>i xs. xs) (blank_splitter True False False)
           \<lparr>ds_rows = 3, ds_labels = [0, 1, 1], ds_is_regression = False,
            ds_time_values = [1, 2, 3]\<rparr>)) (Count 1)) = Inl NotReset"
proof -
  have i: "init_splitter True False False = Inr (blank_splitter True False False)"
    by (simp add: init_splitter_def)
  have d: "\<not> ds_is_regression \<lparr>ds_rows = 3, ds_labels = [0, 1, 1],
      ds_is_regression = False, ds_time_values = [1, 2, 3]\<rparr>"
    by simp
  have f: "fit (\<lambda>i xs. xs) (blank_splitter True False False)
        \<lparr>ds_rows = 3, ds_labels = [0, 1, 1], ds_is_regression = False,
         ds_time_values = [1, 2, 3]\<rparr>
      = (None, \<lparr>x_len = 3, labels = [0, 1, 1], is_regression = False,
           time_column = Some [1, 2, 3], is_time_series = True, shuffle = False,
           replace = False, remained_indices = Some [2, 1, 0],
           time_indices_list = Some [[2], [1], [0]],
           time_indices_list_in_use = Some [[2], [1], [0]],
           label_indices_list = None, label_indices_list_in_use = None,
           times_counts_cumsum = [1, 2, 3], times_counts_cumsum_in_use = [1, 2, 3],
           time_series_sorting_indices = [0, 1, 2], label_ratios = [],
           n_unique_labels = 0, n_samples = 0\<rparr>)"
    by code_simp
  from split_time_series_non_regression_not_reset [OF i d] i f show ?thesis
    by blast
qed

section \<open>DataSplitter: a request that covers the whole pool\<close>

lemma split_whole_pool:
  assumes "remained_indices s = Some pool" and "of_nat (length pool) \<le> req_val r"
    and "is_regression s \<or> label_indices_list_in_use s \<noteq> None"
  shows "split g s r =
     (Inr \<lparr>dataset_rows = rev pool, corresponding_indices = pool,
           remaining_indices = []\<rparr>, s)"
  using assms by (auto simp: split_def)

text \<open>
  Claim C5, at a concrete input. A regression splitter without shuffling, fitted on
  three rows, is asked for five. The call returns the whole pool and reports that
  nothing remains, yet the splitter it leaves behind is the splitter it started from:
  the pool still holds the three rows, and the same request returns them once more.
\<close>

theorem split_whole_pool_keeps_pool:
  "split (\<lambda>i xs. xs)
      (snd (fit (\<lambda>i xs. xs) (blank_splitter False False False)
         \<lparr>ds_rows = 3, ds_labels = [], ds_is_regression = True, ds_time_values = []\<rparr>))
      (Count 5)
   = (Inr \<lparr>dataset_rows = [2, 1, 0], corresponding_indices = [0, 1, 2],
           remaining_indices = []\<rparr>,
      snd (fit (\<lambda>i xs. xs) (blank_splitter False False False)
         \<lparr>ds_rows = 3, ds_labels = [], ds_is_regression = True, ds_time_values = []\<rparr>))
   \<and> remained_indices
       (snd (fit (\<lambda>i xs. xs) (blank_splitter False False False)
         \<lparr>ds_rows = 3, ds_labels = [], ds_is_regression = True, ds_time_values = []\<rparr>))
     = Some [0, 1, 2]"
  by code_simp

section \<open>DataSplitter: the regression split\<close>


text \<open>
  Claim C6, at a concrete input. A regression splitter with \<open>replace=True\<close> and no
  shuffling at reset holds the pool 0, 1, 2, 3 and is asked for one row; the shuffle
  of this call happens to reverse the pool. The last index of the pool was 3, but the
  call returns 0, the last entry of the pool after the shuffle: the returned array is
  a view of the buffer that the shuffle permutes.
\<close>

theorem split_reg_replace_returns_shuffled_tail:
  "remained_indices
       (snd (fit (\<lambda>i xs. xs) (blank_splitter False False True)
         \<lparr>ds_rows = 4, ds_labels = [], ds_is_regression = True, ds_time_values = []\<rparr>))
     = Some [0, 1, 2, 3]
   \<and> fst (split (\<lambda>i xs. rev xs)
      (snd (fit (\<lambda>i xs. xs) (blank_splitter False False True)
         \<lparr>ds_rows = 4, ds_labels = [], ds_is_regression = True, ds_time_values = []\<rparr>))
      (Count 1))
   = Inr \<lparr>dataset_rows = [0], corresponding_indices = [0],
          remaining_indices = [3, 2, 1, 0]\<rparr>"
  by code_simp

section \<open>DataSplitter: too few samples for the labels\<close>

lemma adjust_counts_error: "adjust_counts g ks n = Inl e \<Longrightarrow> e = OverflowError"
  by (auto simp: adjust_counts_def Let_def split: if_splits)

lemma np_hstack_error: "np_hstack xss = Inl e \<Longrightarrow> e = EmptySequence"
  by (auto simp: np_hstack_def split: if_splits)

lemma split_clf_insufficient:
  "(fst (split_clf g s n) = Inl InsufficientLabels \<longleftrightarrow> n < int (n_unique_labels s))
   \<and> (n < int (n_unique_labels s) \<longrightarrow> snd (split_clf g s n) = s)"
  by (auto simp: split_clf_def Let_def dest!: adjust_counts_error np_hstack_error
      split: sum.splits option.splits if_splits)

text \<open>
  Claim C7. A classification splitter (no time series configuration) that has been
  reset is given a request below the size of its pool; \<open>n\<close> is the count of that
  request (the request itself, or \<open>int(len(x) * n)\<close> for a request below 1). Then
  \<open>split\<close> fails with the insufficient-labels error exactly when \<open>n\<close> is less than
  the number of unique labels, and such a failure leaves the splitter as it was.
\<close>

theorem split_clf_insufficient_labels:
  assumes "\<not> is_regression s" and "\<not> is_time_series s"
    and "label_indices_list_in_use s \<noteq> None"
    and "remained_indices s = Some pool"
    and "req_val r < of_nat (length pool)"
    and "to_count (x_len s) r = Some n"
  shows "(fst (split g s r) = Inl InsufficientLabels \<longleftrightarrow> n < int (n_unique_labels s))
       \<and> (fst (split g s r) = Inl InsufficientLabels \<longrightarrow> snd (split g s r) = s)"
  using assms split_clf_insufficient [of g s n]
  by (auto simp: split_def split: prod.splits sum.splits)

lemma clf_example_fit:
  "fit (\<lambda>i xs. xs) (blank_splitter False False False)
     \<lparr>ds_rows = 5, ds_labels = [0, 0, 0, 1, 1], ds_is_regression = False,
      ds_time_values = []\<rparr> = (None, clf_example)"
  by code_simp

theorem split_clf_insufficient_labels_witness:
  "fit (\<lambda>i xs. xs) (blank_splitter False False False)
     \<lparr>ds_rows = 5, ds_labels = [0, 0, 0, 1, 1], ds_is_regression = False,
      ds_time_values = []\<rparr> = (None, clf_example)
   \<and> to_count (x_len clf_example) (Count 1) = Some 1
   \<and> n_unique_labels clf_example = 2
   \<and> split (\<lambda>i xs. xs) clf_example (Count 1) = (Inl InsufficientLabels, clf_example)"
proof -
  have a: "\<not> is_regression clf_example" "\<not> is_time_series clf_example"
    "label_indices_list_in_use clf_example \<noteq> None"
    "remained_indices clf_example = Some [0, 1, 2, 3, 4]"
    "req_val (Count 1) < of_nat (length [0, 1, 2, 3, 4 :: nat])"
    by (simp_all add: clf_example_def)
  have c: "to_count (x_len clf_example) (Count 1) = Some 1"
    by (simp add: to_count_def)
  have l: "n_unique_labels clf_example = 2"
    by (simp add: clf_example_def)
  from split_clf_insufficient_labels [OF a c, of "\<lambda>i xs. xs"] l
  have "fst (split (\<lambda>i xs. xs) clf_example (Count 1)) = Inl InsufficientLabels"
    and "snd (split (\<lambda>i xs. xs) clf_example (Count 1)) = clf_example"
    by simp_all
  then have "split (\<lambda>i xs. xs) clf_example (Count 1) = (Inl InsufficientLabels, clf_example)"
    by (simp add: prod_eq_iff)
  with clf_example_fit c l show ?thesis by simp
qed

section \<open>DataSplitter: split\_multiple on fractions\<close>

lemma split_all_length:
  "split_all gs k s ns = (Inr results, s') \<Longrightarrow> length results = length ns"
proof (induction ns arbitrary: k s results s')
  case Nil
  then show ?case by simp
next
  case (Cons n ns)
  then show ?case
    by (auto split: prod.splits sum.splits)
qed

lemma convert_fractions:
  assumes "n_list \<noteq> []" and "list_all (\<lambda>n. req_val n \<le> 1) n_list"
    and "sum_list (map req_val n_list) < 1"
  shows "convert_requests n_total n_list return_remained =
     Inr (map Count
       (map (\<lambda>n. py_int (of_nat n_total * req_val n)) (butlast n_list)
        @ [py_int (of_nat n_total * sum_list (map req_val n_list))
             - sum_list (map (\<lambda>n. py_int (of_nat n_total * req_val n)) (butlast n_list)),
           int n_total - py_int (of_nat n_total * sum_list (map req_val n_list))]))"
  using assms by (simp add: convert_requests_def Let_def)

text \<open>
  Claim C10, amended. For a non-empty list of requests, each at most 1, whose sum is
  strictly less than 1, and for either value of \<open>return_remained\<close>: the list of
  counts that \<open>split_multiple\<close> maps \<open>split\<close> over has one element more than the
  input list, its last element is the number of rows the fractions do not cover, and
  its elements sum to the total number of rows; whenever the call returns, the
  returned list has one element more than the input list.
\<close>

theorem split_multiple_fractions_remainder:
  assumes "n_list \<noteq> []" and "list_all (\<lambda>n. req_val n \<le> 1) n_list"
    and "sum_list (map req_val n_list) < 1"
  shows "(\<exists>counts.
            convert_requests (x_len s) n_list return_remained = Inr (map Count counts)
            \<and> length counts = length n_list + 1
            \<and> sum_list counts = int (x_len s)
            \<and> last counts =
                int (x_len s) - py_int (of_nat (x_len s) * sum_list (map req_val n_list)))
       \<and> (\<forall>results s'.
            split_multiple gs s n_list return_remained = (Inr results, s')
            \<longrightarrow> length results = length n_list + 1)"
proof -
  let ?heads = "map (\<lambda>n. py_int (of_nat (x_len s) * req_val n)) (butlast n_list)"
  let ?sel = "py_int (of_nat (x_len s) * sum_list (map req_val n_list))"
  let ?counts = "?heads @ [?sel - sum_list ?heads, int (x_len s) - ?sel]"
  have conv: "convert_requests (x_len s) n_list return_remained = Inr (map Count ?counts)"
    by (rule convert_fractions [OF assms])
  have len: "length ?counts = length n_list + 1"
    using assms(1) by simp
  have total: "sum_list ?counts = int (x_len s)"
    by simp
  have lst: "last ?counts = int (x_len s) - ?sel"
    by simp
  have ret: "length results = length n_list + 1"
    if "split_multiple gs s n_list return_remained = (Inr results, s')" for results s'
  proof -
    from that conv have "split_all gs 0 s (map Count ?counts) = (Inr results, s')"
      by (simp add: split_multiple_def)
    from split_all_length [OF this] len show ?thesis by simp
  qed
  from conv len total lst have
    "\<exists>counts. convert_requests (x_len s) n_list return_remained = Inr (map Count counts)
       \<and> length counts = length n_list + 1
       \<and> sum_list counts = int (x_len s)
       \<and> last counts = int (x_len s) - ?sel"
    by blast
  with ret show ?thesis by blast
qed

lemma reg_example_fit:
  "fit (\<lambda>i xs. xs) (blank_splitter False False False)
     \<lparr>ds_rows = 10, ds_labels = [], ds_is_regression = True, ds_time_values = []\<rparr>
   = (None, reg_example)"
  by code_simp

theorem split_multiple_fractions_remainder_witness:
  "[Frac (3 / 10), Frac (3 / 10)] \<noteq> []
   \<and> list_all (\<lambda>n. req_val n \<le> 1) [Frac (3 / 10), Frac (3 / 10)]
   \<and> sum_list (map req_val [Frac (3 / 10), Frac (3 / 10)]) < 1
   \<and> convert_requests (x_len reg_example) [Frac (3 / 10), Frac (3 / 10)] True
       = Inr [Count 3, Count 3, Count 4]
   \<and> (\<exists>results s'. split_multiple (\<lambda>k i xs. xs) reg_example
                    [Frac (3 / 10), Frac (3 / 10)] False = (Inr results, s')
         \<and> map corresponding_indices results = [[7, 8, 9], [4, 5, 6], [0, 1, 2, 3]]
         \<and> length results = length [Frac (3 / 10), Frac (3 / 10)] + 1)"
proof -
  have a: "[Frac (3 / 10), Frac (3 / 10)] \<noteq> []"
    "list_all (\<lambda>n. req_val n \<le> 1) [Frac (3 / 10), Frac (3 / 10)]"
    "sum_list (map req_val [Frac (3 / 10), Frac (3 / 10)]) < 1"
    by simp_all
  have c: "convert_requests (x_len reg_example) [Frac (3 / 10), Frac (3 / 10)] True
       = Inr [Count 3, Count 3, Count 4]"
    by code_simp
  have m: "map corresponding_indices
       (case fst (split_multiple (\<lambda>k i xs. xs) reg_example
                    [Frac (3 / 10), Frac (3 / 10)] False) of Inr results \<Rightarrow> results | Inl e \<Rightarrow> [])
       = [[7, 8, 9], [4, 5, 6], [0, 1, 2, 3]]"
    by code_simp
  obtain res s' where r: "split_multiple (\<lambda>k i xs. xs) reg_example
                    [Frac (3 / 10), Frac (3 / 10)] False = (res, s')"
    by (cases "split_multiple (\<lambda>k i xs. xs) reg_example
                    [Frac (3 / 10), Frac (3 / 10)] False")
  with m obtain results where res: "res = Inr results"
    by (cases res) simp_all
  from m r res have m': "map corresponding_indices results = [[7, 8, 9], [4, 5, 6], [0, 1, 2, 3]]"
    by simp
  from split_multiple_fractions_remainder [OF a, of reg_example False "\<lambda>k i xs. xs"] r res
  have "length results = length [Frac (3 / 10), Frac (3 / 10)] + 1"
    by blast
  with m' r res have "\<exists>results s'. split_multiple (\<lambda>k i xs. xs) reg_example
                    [Frac (3 / 10), Frac (3 / 10)] False = (Inr results, s')
         \<and> map corresponding_indices results = [[7, 8, 9], [4, 5, 6], [0, 1, 2, 3]]
         \<and> length results = length [Frac (3 / 10), Frac (3 / 10)] + 1"
    by auto
  with a c show ?thesis by simp
qed

theorem split_multiple_empty_list_counterexample:
  "list_all (\<lambda>n. req_val n \<le> 1) []
   \<and> sum_list (map req_val []) < 1
   \<and> split_multiple (\<lambda>k i xs. xs) reg_example [] False = (Inl IndexError, reg_example)
   \<and> split_multiple (\<lambda>k i xs. xs) reg_example [] True = (Inl IndexError, reg_example)"
  by (simp add: split_multiple_def convert_requests_def)

section \<open>DataSplitter: the stratified counts\<close>


lemma sub_sign_at_length [simp]: "length (sub_sign_at sign idxs ks) = length ks"
  unfolding sub_sign_at_def by (induction idxs arbitrary: ks) simp_all


lemma sub_sign_at_Nil [simp]: "sub_sign_at sign [] ks = ks"
  by (simp add: sub_sign_at_def)



lemma funpow_sub_sign_at_length [simp]:
  "length (((sub_sign_at sign idxs) ^^ m) ks) = length ks"
  by (induction m) simp_all






lemma adjust_counts_no_choice:
  "sum_list ks \<noteq> n \<Longrightarrow> \<forall>i < length ks. ks ! i = 1 \<Longrightarrow> permuting g \<Longrightarrow>
     adjust_counts g ks n = Inl OverflowError"
proof -
  assume ne: "sum_list ks \<noteq> n" and all1: "\<forall>i < length ks. ks ! i = 1" and perm: "permuting g"
  from all1 have "filter (\<lambda>i. ks ! i \<noteq> 1) [0..<length ks] = []"
    by (simp add: filter_empty_conv)
  moreover from perm have "mset (g 0 []) = mset []"
    unfolding permuting_def by blast
  ultimately have "g 0 (filter (\<lambda>i. ks ! i \<noteq> 1) [0..<length ks]) = []"
    by simp
  with ne show ?thesis
    by (simp add: adjust_counts_def Let_def)
qed




lemma samples_per_label_length [simp]:
  "length (samples_per_label ratios n) = length ratios"
  by (simp add: samples_per_label_def)



lemma permuting_id: "permuting (\<lambda>i xs. xs)"
  by (simp add: permuting_def)



subsection \<open>The rows that the classification split draws\<close>
















text \<open>
  Beyond one round the labels that absorb the excess are still those whose count was
  not 1 before the first round (the mask of line 169 is computed once), so a count can
  pass 1: with the counts 2, 4, 1, 1, 1, 1 and \<open>n = 6\<close> the first label ends at 0,
  and \<open>indices[-0:]\<close> then takes every row of that label.
\<close>

lemma adjust_counts_below_one:
  "adjust_counts (\<lambda>i xs. xs) [2, 4, 1, 1, 1, 1] 6 = Inr [0, 2, 1, 1, 1, 1]"
  by code_simp

section \<open>DataSplitter: the time series split\<close>

lemma cumsum_from_length [simp]: "length (cumsum_from a xs) = length xs"
  by (induction xs arbitrary: a) simp_all

lemma cumsum_from_nth:
  "i < length xs \<Longrightarrow> cumsum_from a xs ! i = a + sum_list (take (Suc i) xs)"
proof (induction xs arbitrary: a i)
  case Nil
  then show ?case by simp
next
  case (Cons x xs)
  then show ?case by (cases i) (simp_all add: algebra_simps)
qed

lemma cumsum_from_drop:
  "drop j (cumsum_from a xs) = cumsum_from (a + sum_list (take j xs)) (drop j xs)"
proof (induction xs arbitrary: a j)
  case Nil
  then show ?case by simp
next
  case (Cons x xs)
  then show ?case by (cases j) (simp_all add: algebra_simps)
qed

lemma cumsum_from_shift:
  "map (\<lambda>c. c - n) (cumsum_from a xs) = cumsum_from (a - n) xs"
  by (induction xs arbitrary: a) (simp_all add: algebra_simps)

lemma cumsum_from_head:
  "cumsum_from a (x # xs) = cumsum_from (a + d) ((x - d) # xs)"
  by (simp add: algebra_simps)

lemma int_length_concat:
  "int (length (concat xss)) = sum_list (map (\<lambda>xs. int (length xs)) xss)"
  by (induction xss) simp_all

lemma cumsum_from_mono:
  "\<forall>x \<in> set xs. 0 < x \<Longrightarrow> i < length xs \<Longrightarrow> a < cumsum_from a xs ! i"
proof (induction xs arbitrary: a i)
  case Nil
  then show ?case by simp
next
  case (Cons x xs)
  show ?case
  proof (cases i)
    case 0
    with Cons.prems show ?thesis by simp
  next
    case (Suc k)
    with Cons.prems have "a + x < cumsum_from (a + x) xs ! k"
      by (intro Cons.IH) simp_all
    with Cons.prems Suc show ?thesis by simp
  qed
qed

text \<open>The position that np.argmax finds in a cumulative sum.\<close>

lemma np_argmax_ge_cumsum:
  fixes sizes :: "int list"
  assumes pos: "\<forall>x \<in> set sizes. 0 < x"
    and n0: "0 \<le> n" and n: "n < sum_list sizes"
  defines "cs \<equiv> cumsum_from 0 sizes"
  defines "j \<equiv> np_argmax_ge cs n"
  shows "j < length sizes"
    and "sum_list (take j sizes) < n \<or> j = 0"
    and "n \<le> sum_list (take j sizes) + sizes ! j"
proof -
  define k where "k = length (takeWhile (\<lambda>c. c < n) cs)"
  from n n0 have ne: "sizes \<noteq> []" by (cases sizes) auto
  have lcs: "length cs = length sizes" unfolding cs_def by simp
  have last_cs: "cs ! (length sizes - 1) = sum_list sizes"
    unfolding cs_def using ne cumsum_from_nth [of "length sizes - 1" sizes 0] by simp
  have k_lt: "k < length cs"
  proof (rule ccontr)
    assume "\<not> k < length cs"
    moreover have "k \<le> length cs"
      unfolding k_def by (rule length_takeWhile_le)
    ultimately have "k = length cs" by simp
    moreover have "takeWhile (\<lambda>c. c < n) cs = take k cs"
      unfolding k_def by (rule takeWhile_eq_take)
    ultimately have all: "takeWhile (\<lambda>c. c < n) cs = cs" by simp
    have allP: "\<forall>c \<in> set cs. c < n"
    proof
      fix c assume "c \<in> set cs"
      then have "c \<in> set (takeWhile (\<lambda>c. c < n) cs)" by (simp only: all)
      then show "c < n" by (rule set_takeWhileD [THEN conjunct2])
    qed
    have "cs ! (length sizes - 1) \<in> set cs"
      using ne lcs by simp
    with allP have "cs ! (length sizes - 1) < n" by blast
    with last_cs n show False by simp
  qed
  then have j_eq: "j = k"
    unfolding j_def np_argmax_ge_def k_def Let_def by simp
  from k_lt lcs show "j < length sizes" unfolding j_eq by simp
  have at_j: "\<not> cs ! k < n"
    using k_lt unfolding k_def by (rule nth_length_takeWhile)
  have "cs ! k = sum_list (take (Suc k) sizes)"
    unfolding cs_def using k_lt lcs cumsum_from_nth [of k sizes 0] by simp
  also have "\<dots> = sum_list (take k sizes) + sizes ! k"
    using k_lt lcs by (simp add: take_Suc_conv_app_nth)
  finally show "n \<le> sum_list (take j sizes) + sizes ! j"
    using at_j unfolding j_eq by simp
  show "sum_list (take j sizes) < n \<or> j = 0"
  proof (cases k)
    case 0
    then show ?thesis unfolding j_eq by simp
  next
    case (Suc m)
    then have m: "m < k" by simp
    then have "takeWhile (\<lambda>c. c < n) cs ! m = cs ! m"
      unfolding k_def by (rule takeWhile_nth)
    moreover have "takeWhile (\<lambda>c. c < n) cs ! m \<in> set (takeWhile (\<lambda>c. c < n) cs)"
      using m unfolding k_def by simp
    ultimately have "cs ! m \<in> set (takeWhile (\<lambda>c. c < n) cs)" by simp
    then have "cs ! m < n"
      by (rule set_takeWhileD [THEN conjunct2])
    moreover have "cs ! m = sum_list (take (Suc m) sizes)"
      unfolding cs_def using m k_lt lcs cumsum_from_nth [of m sizes 0] by simp
    ultimately show ?thesis unfolding j_eq Suc by simp
  qed
qed


lemma take_concat_middle:
  "b \<le> length ys \<Longrightarrow> take (length xs + b) (xs @ ys @ zs) = xs @ take b ys"
  by simp

lemma drop_concat_middle:
  "b \<le> length ys \<Longrightarrow> drop (length xs + b) (xs @ ys @ zs) = drop b ys @ zs"
  by simp

lemma split_time_series_step:
  assumes rdy: "ts_ready s in_use" and n0: "0 \<le> n"
    and n: "n < int (length (concat in_use))"
  shows "\<exists>s' in_use'.
           split_time_series s n = (Inr (rev (take (nat n) (concat in_use))), s')
           \<and> ts_ready s' in_use'
           \<and> concat in_use' = drop (nat n) (concat in_use)
           \<and> x_len s' = x_len s"
proof -
  define sizes where "sizes = map (\<lambda>grp. int (length grp)) in_use"
  define cs where "cs = cumsum_from 0 sizes"
  define j where "j = np_argmax_ge cs n"
  define pre where "pre = take j in_use"
  define grp where "grp = in_use ! j"
  define post where "post = drop (Suc j) in_use"
  define before where "before = int (length (concat pre))"
  define n_res where "n_res = n - before"
  from rdy have ts: "is_time_series s" and reg: "is_regression s"
    and iu: "time_indices_list_in_use s = Some in_use"
    and pool: "remained_indices s = Some (concat in_use)"
    and csum: "times_counts_cumsum_in_use s = cs"
    and nonempty: "[] \<notin> set in_use"
    unfolding ts_ready_def cs_def sizes_def np_cumsum_def by simp_all
  have pos: "\<forall>x \<in> set sizes. 0 < x"
    unfolding sizes_def using nonempty by auto
  have total: "sum_list sizes = int (length (concat in_use))"
    unfolding sizes_def by (simp add: int_length_concat)
  from n total have n': "n < sum_list sizes" by simp
  have lsz: "length sizes = length in_use" unfolding sizes_def by simp
  have j_lt: "j < length in_use"
    and lo: "sum_list (take j sizes) < n \<or> j = 0"
    and hi: "n \<le> sum_list (take j sizes) + sizes ! j"
    using np_argmax_ge_cumsum [OF pos n0 n'] unfolding cs_def [symmetric] j_def [symmetric] lsz
    by simp_all
  have decomp: "in_use = pre @ grp # post"
    unfolding pre_def grp_def post_def using j_lt by (simp add: id_take_nth_drop)
  have bef: "sum_list (take j sizes) = before"
    unfolding before_def pre_def sizes_def by (simp add: int_length_concat take_map)
  have szj: "sizes ! j = int (length grp)"
    unfolding sizes_def grp_def using j_lt by simp
  from hi bef szj have hi': "n \<le> before + int (length grp)" by simp
  have lo': "before \<le> n"
  proof (cases "j = 0")
    case True
    then show ?thesis unfolding before_def pre_def using n0 by simp
  next
    case False
    with lo bef show ?thesis by simp
  qed
  have res0: "0 \<le> n_res" and res_le: "n_res \<le> int (length grp)"
    unfolding n_res_def using lo' hi' by simp_all
  have nat_n: "nat n = length (concat pre) + nat n_res"
    unfolding n_res_def before_def using lo' [unfolded before_def] by simp
  have cat: "concat in_use = concat pre @ grp @ concat post"
    unfolding decomp by simp
  have taken: "take (nat n) (concat in_use) = concat pre @ take (nat n_res) grp"
    unfolding nat_n cat using res_le by (intro take_concat_middle) simp
  have dropped: "drop (nat n) (concat in_use) = drop (nat n_res) grp @ concat post"
    unfolding nat_n cat using res_le by (intro drop_concat_middle) simp
  have cs_ne: "cs \<noteq> []"
    unfolding cs_def using j_lt lsz by (cases sizes) auto
  have cs_j: "cs ! j = before + int (length grp)"
    unfolding cs_def using cumsum_from_nth [of j sizes 0] j_lt lsz bef szj
    by (simp add: take_Suc_conv_app_nth)
  have cs_prev: "cs ! (j - 1) = before" if "j \<noteq> 0"
  proof -
    from that j_lt lsz have "j - 1 < length sizes" by simp
    from cumsum_from_nth [OF this, of 0] that bef show ?thesis
      unfolding cs_def by simp
  qed
  have e_res: "(if j = 0 then n else n - cs ! (j - 1)) = n_res"
  proof (cases "j = 0")
    case True
    then show ?thesis unfolding n_res_def before_def pre_def by simp
  next
    case False
    with cs_prev show ?thesis unfolding n_res_def by simp
  qed
  have e_sel: "(if j = 0 then [] else take j in_use) = pre"
    unfolding pre_def by simp
  have e_use: "(if j = 0 then in_use else drop j in_use) = grp # post"
    unfolding grp_def post_def using j_lt by (simp add: Cons_nth_drop_Suc)
  have drop_sizes: "drop j sizes = int (length grp) # map (\<lambda>grp. int (length grp)) post"
    unfolding sizes_def drop_map using e_use j_lt
    by (simp split: if_splits)
  have e_cs: "(if j = 0 then cs else drop j cs)
      = cumsum_from before (int (length grp) # map (\<lambda>grp. int (length grp)) post)"
  proof -
    have "(if j = 0 then cs else drop j cs) = drop j cs" by simp
    also have "\<dots> = cumsum_from before (drop j sizes)"
      unfolding cs_def using cumsum_from_drop [of j 0 sizes] bef by simp
    finally show ?thesis by (simp only: drop_sizes)
  qed
  have sl_to: "slice_to grp n_res = take (nat n_res) grp"
    using res0 by (simp add: slice_to_def)
  have sl_from: "slice_from grp n_res = drop (nat n_res) grp"
    using res0 by (simp add: slice_from_def)
  have post_sub: "[] \<notin> set post"
    using nonempty unfolding decomp by simp
  show ?thesis
  proof (cases "0 < cs ! j - n")
    case True
    define in_use' where "in_use' = drop (nat n_res) grp # post"
    define s' where "s' = s\<lparr>time_indices_list_in_use := Some in_use',
        times_counts_cumsum_in_use := np_cumsum (map (\<lambda>grp. int (length grp)) in_use'),
        remained_indices := Some (concat in_use')\<rparr>"
    from True cs_j have short: "n_res < int (length grp)" unfolding n_res_def by simp
    then have grp_left: "drop (nat n_res) grp \<noteq> []" using res0 by simp
    have len_left: "int (length (drop (nat n_res) grp)) = before - n + int (length grp)"
      using res0 short unfolding n_res_def by simp
    have newcs: "map (\<lambda>c. c - n)
          (cumsum_from before (int (length grp) # map (\<lambda>grp. int (length grp)) post))
        = np_cumsum (map (\<lambda>grp. int (length grp)) in_use')"
      unfolding in_use'_def np_cumsum_def cumsum_from_shift
      by (simp add: len_left del: length_drop)
    from newcs have newcs':
      "(before + int (length grp) - n)
         # map (\<lambda>c. c - n)
             (cumsum_from (before + int (length grp)) (map (\<lambda>grp. int (length grp)) post))
       = np_cumsum (map (\<lambda>grp. int (length grp)) in_use')"
      by simp
    have cat': "drop (nat n_res) grp @ concat post = concat in_use'"
      unfolding in_use'_def by simp
    have run: "split_time_series s n = (Inr (rev (take (nat n) (concat in_use))), s')"
      unfolding split_time_series_def Let_def csum iu j_def [symmetric]
      using cs_ne True
      by (simp add: e_res e_sel e_use e_cs sl_to sl_from np_hstack_def taken newcs' cat'
          in_use'_def [symmetric] s'_def)
    have "ts_ready s' in_use'"
      unfolding ts_ready_def s'_def using ts reg grp_left post_sub
      by (simp add: in_use'_def)
    moreover have "concat in_use' = drop (nat n) (concat in_use)"
      unfolding in_use'_def dropped by simp
    moreover have "x_len s' = x_len s" unfolding s'_def by simp
    ultimately show ?thesis using run by blast
  next
    case False
    define s' where "s' = s\<lparr>time_indices_list_in_use := Some post,
        times_counts_cumsum_in_use := np_cumsum (map (\<lambda>grp. int (length grp)) post),
        remained_indices := Some (concat post)\<rparr>"
    from False cs_j hi' have full: "n_res = int (length grp)" unfolding n_res_def by simp
    have npost: "post \<noteq> []"
    proof
      assume "post = []"
      with cat have "int (length (concat in_use)) = before + int (length grp)"
        unfolding before_def by simp
      with n full show False unfolding n_res_def by simp
    qed
    have newcs: "map (\<lambda>c. c - n)
          (drop 1 (cumsum_from before (int (length grp) # map (\<lambda>grp. int (length grp)) post)))
        = np_cumsum (map (\<lambda>grp. int (length grp)) post)"
    proof -
      from full have z: "before + int (length grp) - n = 0"
        unfolding n_res_def by simp
      show ?thesis
        unfolding np_cumsum_def by (simp add: cumsum_from_shift z)
    qed
    have taken': "take (nat n) (concat in_use) = concat pre @ grp"
      unfolding taken using full by simp
    have run: "split_time_series s n = (Inr (rev (take (nat n) (concat in_use))), s')"
      unfolding split_time_series_def Let_def csum iu j_def [symmetric]
      using cs_ne False npost newcs
      by (simp add: e_res e_sel e_use e_cs slice_to_def np_hstack_def taken' full s'_def)
    have "ts_ready s' post"
      unfolding ts_ready_def s'_def using ts reg post_sub by simp
    moreover have "concat post = drop (nat n) (concat in_use)"
      unfolding dropped using full by simp
    moreover have "x_len s' = x_len s" unfolding s'_def by simp
    ultimately show ?thesis using run by blast
  qed
qed

section \<open>DataSplitter: size of a split and what remains\<close>

lemma to_count_Count: "0 \<le> n \<Longrightarrow> to_count t (Count n) = Some n"
  by (cases "n = 0") (simp_all add: to_count_def py_int_def)

lemma split_time_series_call:
  assumes rdy: "ts_ready s in_use"
    and cnt: "to_count (x_len s) r = Some n"
    and below: "req_val r < of_nat (length (concat in_use))"
    and n0: "0 \<le> n" and n: "n < int (length (concat in_use))"
  shows "\<exists>s' in_use'.
           split g s r =
             (Inr \<lparr>dataset_rows = rev (take (nat n) (concat in_use)),
                   corresponding_indices = rev (take (nat n) (concat in_use)),
                   remaining_indices = drop (nat n) (concat in_use)\<rparr>, s')
           \<and> ts_ready s' in_use'
           \<and> concat in_use' = drop (nat n) (concat in_use)
           \<and> x_len s' = x_len s"
proof -
  from split_time_series_step [OF rdy n0 n] obtain s' in_use' where
    run: "split_time_series s n = (Inr (rev (take (nat n) (concat in_use))), s')"
    and rdy': "ts_ready s' in_use'"
    and rest: "concat in_use' = drop (nat n) (concat in_use)"
    and xl: "x_len s' = x_len s"
    by blast
  from rdy have ts: "is_time_series s" and reg: "is_regression s"
    and pool: "remained_indices s = Some (concat in_use)"
    unfolding ts_ready_def by simp_all
  from rdy' rest have pool': "remained_indices s' = Some (drop (nat n) (concat in_use))"
    unfolding ts_ready_def by simp
  from n0 n have len: "int (length (rev (take (nat n) (concat in_use)))) = n"
    by simp
  from below have nb: "\<not> of_nat (length (concat in_use)) \<le> req_val r" by simp
  have "split g s r =
      (Inr \<lparr>dataset_rows = rev (take (nat n) (concat in_use)),
            corresponding_indices = rev (take (nat n) (concat in_use)),
            remaining_indices = drop (nat n) (concat in_use)\<rparr>, s')"
    unfolding split_def using ts reg pool nb cnt run len pool'
    by (simp del: length_rev length_take)
  with rdy' rest xl show ?thesis by blast
qed





lemma ts_example_fit:
  "fit (\<lambda>i xs. xs) (blank_splitter True False False)
     \<lparr>ds_rows = 6, ds_labels = [], ds_is_regression = True,
      ds_time_values = [1, 1, 2, 2, 3, 3]\<rparr> = (None, ts_example)"
  by code_simp





section \<open>DataSplitter: the order of time series splits\<close>

lemma sum_list_nonneg_int: "\<forall>n \<in> set ns. (0::int) \<le> n \<Longrightarrow> 0 \<le> sum_list ns"
  by (induction ns) auto

lemma request_below_pool:
  assumes "to_count x r = Some n" and "0 \<le> n" and "n < int m"
  shows "req_val r < of_nat m"
proof (cases "req_val r < 1")
  case True
  from assms(2,3) have "1 \<le> m" by simp
  then have "(1::rat) \<le> of_nat m" by simp
  with True show ?thesis by simp
next
  case False
  with assms(1) have "r = Count n"
    by (cases r) (simp_all add: to_count_def)
  moreover from assms(3) have "rat_of_int n < rat_of_int (int m)"
    by (simp only: of_int_less_iff)
  ultimately show ?thesis by simp
qed

lemma split_all_time_series:
  assumes "list_all2 (\<lambda>r n. to_count x r = Some n \<and> 0 \<le> n) rs ns"
    and "ts_ready s in_use" and "x_len s = x"
    and "sum_list ns < int (length (concat in_use))"
  shows "\<exists>results s' in_use'.
           split_all gs k s rs = (Inr results, s')
           \<and> ts_ready s' in_use'
           \<and> concat in_use' = drop (nat (sum_list ns)) (concat in_use)
           \<and> concat (map (\<lambda>res. rev (corresponding_indices res)) results)
               = take (nat (sum_list ns)) (concat in_use)
           \<and> map (\<lambda>res. int (length (corresponding_indices res))) results = ns"
  using assms
proof (induction arbitrary: k s in_use rule: list_all2_induct)
  case Nil
  then show ?case by auto
next
  case (Cons r rs n ns)
  from Cons.hyps have cnt': "to_count x r = Some n" and n0: "0 \<le> n"
    and rest: "list_all2 (\<lambda>r n. to_count x r = Some n \<and> 0 \<le> n) rs ns"
    by simp_all
  from Cons.prems have rdy: "ts_ready s in_use" and xl: "x_len s = x"
    and total: "n + sum_list ns < int (length (concat in_use))"
    by simp_all
  from rest have "\<forall>m \<in> set ns. 0 \<le> m"
    by (induction rule: list_all2_induct) simp_all
  then have s0: "0 \<le> sum_list ns" by (rule sum_list_nonneg_int)
  with total have small: "n < int (length (concat in_use))" by simp
  from cnt' xl have cnt: "to_count (x_len s) r = Some n" by simp
  have below: "req_val r < of_nat (length (concat in_use))"
    by (rule request_below_pool [OF cnt' n0 small])
  from split_time_series_call [OF rdy cnt below n0 small, of "gs k"]
  obtain s1 in_use1 where
    run1: "split (gs k) s r =
             (Inr \<lparr>dataset_rows = rev (take (nat n) (concat in_use)),
                   corresponding_indices = rev (take (nat n) (concat in_use)),
                   remaining_indices = drop (nat n) (concat in_use)\<rparr>, s1)"
    and rdy1: "ts_ready s1 in_use1"
    and pool1: "concat in_use1 = drop (nat n) (concat in_use)"
    and xl1': "x_len s1 = x_len s"
    by blast
  from xl1' xl have xl1: "x_len s1 = x" by simp
  from total n0 have total1: "sum_list ns < int (length (concat in_use1))"
    unfolding pool1 by simp
  from Cons.IH [OF rdy1 xl1 total1, of "Suc k"]
  obtain results s' in_use' where
    run: "split_all gs (Suc k) s1 rs = (Inr results, s')"
    and rdy': "ts_ready s' in_use'"
    and pool': "concat in_use' = drop (nat (sum_list ns)) (concat in_use1)"
    and drawn: "concat (map (\<lambda>res. rev (corresponding_indices res)) results)
               = take (nat (sum_list ns)) (concat in_use1)"
    and sizes: "map (\<lambda>res. int (length (corresponding_indices res))) results = ns"
    by blast
  define res1 where "res1 = \<lparr>dataset_rows = rev (take (nat n) (concat in_use)),
                   corresponding_indices = rev (take (nat n) (concat in_use)),
                   remaining_indices = drop (nat n) (concat in_use)\<rparr>"
  from n0 s0 have nat_sum: "nat (n + sum_list ns) = nat n + nat (sum_list ns)"
    by (rule nat_add_distrib)
  have all: "split_all gs k s (r # rs) = (Inr (res1 # results), s')"
    using run1 run unfolding res1_def by simp
  have p: "concat in_use' = drop (nat (sum_list (n # ns))) (concat in_use)"
    using pool' unfolding pool1 by (simp add: nat_sum add.commute)
  have d: "concat (map (\<lambda>res. rev (corresponding_indices res)) (res1 # results))
      = take (nat (sum_list (n # ns))) (concat in_use)"
    using drawn unfolding pool1 res1_def by (simp add: nat_sum take_add)
  have z: "map (\<lambda>res. int (length (corresponding_indices res))) (res1 # results) = n # ns"
    using sizes n0 small unfolding res1_def by simp
  show ?case
    by (intro exI conjI) (rule all, rule rdy', rule p, rule d, rule z)
qed

lemma filter_disj_mset:
  "(\<And>x. \<not> (P x \<and> Q x)) \<Longrightarrow>
     mset (filter P xs) + mset (filter Q xs) = mset (filter (\<lambda>x. P x \<or> Q x) xs)"
  by (induction xs) auto

lemma groups_mset:
  "distinct vs \<Longrightarrow>
     mset (concat (map (\<lambda>v. filter (\<lambda>i. f i = v) xs) vs))
       = mset (filter (\<lambda>i. f i \<in> set vs) xs)"
proof (induction vs)
  case Nil
  then show ?case by simp
next
  case (Cons v vs)
  then have ih: "mset (concat (map (\<lambda>v. filter (\<lambda>i. f i = v) xs) vs))
       = mset (filter (\<lambda>i. f i \<in> set vs) xs)"
    and nv: "v \<notin> set vs"
    by simp_all
  have "mset (filter (\<lambda>i. f i = v) xs) + mset (filter (\<lambda>i. f i \<in> set vs) xs)
      = mset (filter (\<lambda>i. f i = v \<or> f i \<in> set vs) xs)"
    using nv by (intro filter_disj_mset) auto
  with ih show ?case by simp
qed

lemma shuffled_lists_length [simp]: "length (shuffled_lists g sh arrs) = length arrs"
  by (simp add: shuffled_lists_def)

lemma shuffled_lists_nth:
  "permuting g \<Longrightarrow> j < length arrs \<Longrightarrow>
     mset (shuffled_lists g sh arrs ! j) = mset (arrs ! j)"
  by (simp add: shuffled_lists_def permuting_def)

lemma shuffled_lists_concat:
  assumes "permuting g"
  shows "mset (concat (shuffled_lists g sh arrs)) = mset (concat arrs)"
proof -
  have "map mset (shuffled_lists g sh arrs) = map mset arrs"
    by (rule nth_equalityI) (simp_all add: shuffled_lists_nth [OF assms])
  then show ?thesis by (simp add: mset_concat)
qed

lemma shuffled_lists_sizes:
  assumes "permuting g"
  shows "map length (shuffled_lists g sh arrs) = map length arrs"
proof (rule nth_equalityI)
  show "length (map length (shuffled_lists g sh arrs)) = length (map length arrs)" by simp
next
  fix j assume "j < length (map length (shuffled_lists g sh arrs))"
  then have j: "j < length arrs" by simp
  from shuffled_lists_nth [OF assms j, of sh]
  have "length (shuffled_lists g sh arrs ! j) = length (arrs ! j)"
    by (rule mset_eq_length)
  with j show "map length (shuffled_lists g sh arrs) ! j = map length arrs ! j" by simp
qed

lemma all_equal_sorted:
  fixes xs :: "int list"
  shows "\<forall>x \<in> set xs. x = v \<Longrightarrow> sorted xs"
  by (induction xs) auto

lemma groups_values:
  "list_all2 (\<lambda>grp v. \<forall>i \<in> set grp. t i = v) grps vs \<Longrightarrow>
     set (map t (concat grps)) \<subseteq> set vs"
  by (induction rule: list_all2_induct) auto

lemma groups_sorted:
  fixes t :: "nat \<Rightarrow> int"
  assumes "list_all2 (\<lambda>grp v. \<forall>i \<in> set grp. t i = v) grps vs" and "sorted (rev vs)"
  shows "sorted (rev (map t (concat grps)))"
  using assms
proof (induction rule: list_all2_induct)
  case Nil
  then show ?case by simp
next
  case (Cons grp grps v vs)
  from Cons.prems have srt: "sorted (rev vs)" and top: "\<forall>x \<in> set vs. x \<le> v"
    by (auto simp: sorted_append)
  from Cons.IH [OF srt] have ih: "sorted (rev (map t (concat grps)))" .
  from Cons.hyps have eq: "\<forall>x \<in> set (rev (map t grp)). x = v" by auto
  then have one: "sorted (rev (map t grp))" by (rule all_equal_sorted)
  from groups_values [OF Cons.hyps(2)] top
  have below: "\<forall>x \<in> set (rev (map t (concat grps))). x \<le> v" by auto
  have "rev (map t (concat (grp # grps))) = rev (map t (concat grps)) @ rev (map t grp)"
    by simp
  moreover have "sorted (rev (map t (concat grps)) @ rev (map t grp))"
    unfolding sorted_append using ih one below eq by auto
  ultimately show ?case by simp
qed

lemma positions_count:
  "length (filter (\<lambda>i. tc ! i = v) [0..<length tc]) = count_list tc v"
proof -
  have "filter (\<lambda>x. x = v) (map (\<lambda>i. tc ! i) [0..<length tc])
      = map (\<lambda>i. tc ! i) (filter (\<lambda>i. tc ! i = v) [0..<length tc])"
    by (simp add: filter_map comp_def)
  then have "length (filter (\<lambda>x. x = v) tc)
      = length (filter (\<lambda>i. tc ! i = v) [0..<length tc])"
    by (simp add: map_nth)
  moreover have "count_list tc v = length (filter (\<lambda>x. x = v) tc)"
    by (induction tc) auto
  ultimately show ?thesis by simp
qed


lemma np_cumsum_last:
  "xs \<noteq> [] \<Longrightarrow> last (np_cumsum xs) = sum_list xs"
proof -
  assume ne: "xs \<noteq> []"
  then have l: "length xs - 1 < length xs" by (cases xs) simp_all
  have ne': "np_cumsum xs \<noteq> []"
    using ne by (cases xs) (simp_all add: np_cumsum_def)
  have "last (np_cumsum xs) = np_cumsum xs ! (length (np_cumsum xs) - 1)"
    by (rule last_conv_nth [OF ne'])
  also have "\<dots> = np_cumsum xs ! (length xs - 1)"
    by (simp add: np_cumsum_def)
  also have "\<dots> = 0 + sum_list (take (Suc (length xs - 1)) xs)"
    unfolding np_cumsum_def by (rule cumsum_from_nth [OF l])
  also have "\<dots> = sum_list xs" using ne by (cases xs) simp_all
  finally show ?thesis .
qed

lemma fit_time_series_ready:
  assumes perm: "permuting g" and reg: "ds_is_regression ds"
    and ne: "ds_time_values ds \<noteq> []"
  shows "\<exists>s in_use. fit g (blank_splitter True sh False) ds = (None, s)
           \<and> ts_ready s in_use
           \<and> x_len s = ds_rows ds
           \<and> mset (concat in_use) = mset [0..<length (ds_time_values ds)]
           \<and> sorted (rev (map (\<lambda>i. ds_time_values ds ! i) (concat in_use)))"
proof -
  define tc where "tc = ds_time_values ds"
  define u where "u = sort (remdups tc)"
  define counts where "counts = map (count_list tc) u"
  define idx where "idx = map (\<lambda>v. filter (\<lambda>i. tc ! i = v) [0..<length tc]) u"
  define cs where "cs = np_cumsum (map int (rev counts))"
  define in_use where "in_use = shuffled_lists g sh (rev idx)"
  define s where "s =
     \<lparr>x_len = ds_rows ds, labels = ds_labels ds, is_regression = True,
      time_column = Some tc, is_time_series = True, shuffle = sh, replace = False,
      remained_indices = Some (concat in_use),
      time_indices_list = Some in_use, time_indices_list_in_use = Some in_use,
      label_indices_list = None, label_indices_list_in_use = None,
      times_counts_cumsum = cs, times_counts_cumsum_in_use = cs,
      time_series_sorting_indices = concat idx, label_ratios = [],
      n_unique_labels = 0, n_samples = 0\<rparr>"
  from ne have tc_ne: "tc \<noteq> []" unfolding tc_def .
  have set_u: "set u = set tc" and dist_u: "distinct u" and sorted_u: "sorted u"
    unfolding u_def by simp_all
  from tc_ne set_u have u_ne: "u \<noteq> []" by auto
  have gu: "get_unique_indices tc = (u, counts, idx)"
    by (simp add: get_unique_indices_def Let_def u_def counts_def idx_def)
  have sizes: "map length idx = counts"
    unfolding idx_def counts_def by (simp add: positions_count comp_def)
  have all_rows: "mset (concat idx) = mset [0..<length tc]"
  proof -
    have "mset (concat idx) = mset (filter (\<lambda>i. tc ! i \<in> set u) [0..<length tc])"
      unfolding idx_def by (rule groups_mset [OF dist_u])
    also have "filter (\<lambda>i. tc ! i \<in> set u) [0..<length tc] = [0..<length tc]"
      unfolding set_u by (rule filter_True) simp
    finally show ?thesis .
  qed
  have total: "sum_list counts = length tc"
  proof -
    have "sum_list counts = sum_list (map length idx)" unfolding sizes ..
    also have "\<dots> = length (concat idx)" by (simp add: length_concat)
    also have "\<dots> = size (mset (concat idx))" by simp
    also have "\<dots> = length tc" unfolding all_rows by simp
    finally show ?thesis .
  qed
  have counts_ne: "map int (rev counts) \<noteq> []"
    using u_ne unfolding counts_def by simp
  then have cs_ne: "cs \<noteq> []"
    unfolding cs_def np_cumsum_def by (cases "map int (rev counts)") simp_all
  have si: "sum_list (map int xs) = int (sum_list xs)" for xs :: "nat list"
    by (induction xs) simp_all
  have "sum_list (map int (rev counts)) = int (sum_list counts)"
    by (simp add: si)
  with total have "sum_list (map int (rev counts)) = int (length tc)" by simp
  with np_cumsum_last [OF counts_ne] have cs_last: "last cs = int (length tc)"
    unfolding cs_def by simp
  have len_in: "length in_use = length u"
    unfolding in_use_def idx_def by simp
  with u_ne have in_use_ne: "in_use \<noteq> []" by (cases in_use) auto
  have run: "fit g (blank_splitter True sh False) ds = (None, s)"
    unfolding fit_def reset_def reset_time_series_def blank_splitter_def
    using reg cs_ne cs_last in_use_ne
    by (simp add: tc_def [symmetric] gu Let_def cs_def [symmetric] in_use_def [symmetric]
        np_hstack_def s_def)
  have in_sizes: "map length in_use = rev counts"
    unfolding in_use_def shuffled_lists_sizes [OF perm] sizes [symmetric] by (simp add: rev_map)
  have cum: "cs = np_cumsum (map (\<lambda>grp. int (length grp)) in_use)"
  proof -
    have "map (\<lambda>grp. int (length grp)) in_use = map int (map length in_use)" by simp
    then show ?thesis unfolding cs_def in_sizes by simp
  qed
  have no_empty: "[] \<notin> set in_use"
  proof
    assume "[] \<in> set in_use"
    then have "0 \<in> set (map length in_use)" by force
    then have "0 \<in> set counts" unfolding in_sizes by simp
    then obtain v where "v \<in> set u" and "count_list tc v = 0"
      unfolding counts_def by auto
    with set_u show False by (simp add: count_list_0_iff)
  qed
  have rdy: "ts_ready s in_use"
    unfolding ts_ready_def using cum no_empty by (simp add: s_def)
  have rows: "mset (concat in_use) = mset [0..<length tc]"
    unfolding in_use_def shuffled_lists_concat [OF perm]
    using all_rows by (simp add: mset_concat rev_map [symmetric])
  have grp: "list_all2 (\<lambda>grp v. \<forall>i \<in> set grp. tc ! i = v) in_use (rev u)"
    unfolding list_all2_conv_all_nth
  proof (intro conjI allI impI)
    show "length in_use = length (rev u)" using len_in by simp
  next
    fix j assume j: "j < length in_use"
    with len_in have j': "j < length (rev idx)" and j'': "j < length (rev u)"
      unfolding idx_def by simp_all
    from shuffled_lists_nth [OF perm j', of sh]
    have "set (in_use ! j) = set (rev idx ! j)"
      unfolding in_use_def by (rule mset_eq_setD)
    moreover have "rev idx ! j = filter (\<lambda>i. tc ! i = rev u ! j) [0..<length tc]"
      unfolding idx_def rev_map using j'' by simp
    ultimately show "\<forall>i \<in> set (in_use ! j). tc ! i = rev u ! j" by simp
  qed
  have srt: "sorted (rev (map (\<lambda>i. tc ! i) (concat in_use)))"
    by (rule groups_sorted [OF grp]) (simp add: sorted_u)
  have xl: "x_len s = ds_rows ds" by (simp add: s_def)
  show ?thesis
    by (intro exI conjI) (rule run, rule rdy, rule xl, rule rows [unfolded tc_def],
      rule srt [unfolded tc_def])
qed

text \<open>
  Claim C4, amended. A time series splitter is fitted on a regression dataset, and a
  sequence of requests, each converted to a count of at least 0, adds up to less than
  the number of rows, so that every request is below the pool it meets. Every call
  returns as many rows as its count. The returned sets, concatenated from the last
  call back to the first, list rows with ascending times: their times are the last
  entries of the sorted time column, as many as were drawn. No row occurs twice among
  the rows returned.
\<close>

theorem time_series_split_order:
  assumes perm: "permuting g" and reg: "ds_is_regression ds"
    and req: "list_all2 (\<lambda>r n. to_count (ds_rows ds) r = Some n \<and> 0 \<le> n) rs ns"
    and below: "sum_list ns < int (length (ds_time_values ds))"
  shows "\<exists>s results s'.
           fit g (blank_splitter True sh False) ds = (None, s)
           \<and> split_all gs 0 s rs = (Inr results, s')
           \<and> map (\<lambda>res. int (length (corresponding_indices res))) results = ns
           \<and> map (\<lambda>i. ds_time_values ds ! i)
                 (concat (rev (map corresponding_indices results)))
               = drop (length (ds_time_values ds) - nat (sum_list ns))
                   (sort (ds_time_values ds))
           \<and> sorted (map (\<lambda>i. ds_time_values ds ! i)
                 (concat (rev (map corresponding_indices results))))
           \<and> distinct (concat (map corresponding_indices results))"
proof -
  define tc where "tc = ds_time_values ds"
  define N where "N = nat (sum_list ns)"
  from req have "\<forall>m \<in> set ns. 0 \<le> m"
    by (induction rule: list_all2_induct) simp_all
  then have s0: "0 \<le> sum_list ns" by (rule sum_list_nonneg_int)
  with below have ne: "ds_time_values ds \<noteq> []" by auto
  from fit_time_series_ready [OF perm reg ne, of sh] obtain s in_use where
    run: "fit g (blank_splitter True sh False) ds = (None, s)"
    and rdy: "ts_ready s in_use"
    and xl: "x_len s = ds_rows ds"
    and rows: "mset (concat in_use) = mset [0..<length tc]"
    and srt: "sorted (rev (map (\<lambda>i. tc ! i) (concat in_use)))"
    unfolding tc_def by blast
  define pool where "pool = concat in_use"
  from rows have len: "length pool = length tc"
    unfolding pool_def using mset_eq_length by fastforce
  from rows have dist: "distinct pool"
    unfolding pool_def by (metis distinct_upt mset_eq_imp_distinct_iff)
  from below len have below': "sum_list ns < int (length (concat in_use))"
    unfolding pool_def tc_def by simp
  from split_all_time_series [OF req rdy xl below', of gs 0] obtain results s' where
    run2: "split_all gs 0 s rs = (Inr results, s')"
    and drawn: "concat (map (\<lambda>res. rev (corresponding_indices res)) results) = take N pool"
    and sizes: "map (\<lambda>res. int (length (corresponding_indices res))) results = ns"
    unfolding N_def pool_def by blast
  have backwards: "concat (rev (map corresponding_indices results)) = rev (take N pool)"
  proof -
    have "rev (take N pool) = rev (concat (map (\<lambda>res. rev (corresponding_indices res)) results))"
      by (simp only: drawn)
    also have "\<dots> = concat (rev (map corresponding_indices results))"
      by (simp add: rev_concat rev_map comp_def)
    finally show ?thesis by simp
  qed
  have "mset (concat (map corresponding_indices results))
      = mset (concat (map (\<lambda>res. rev (corresponding_indices res)) results))"
    by (simp add: mset_concat comp_def)
  then have "mset (concat (map corresponding_indices results)) = mset (take N pool)"
    by (simp only: drawn)
  moreover from dist have "distinct (take N pool)" by simp
  ultimately have once: "distinct (concat (map corresponding_indices results))"
    by (metis mset_eq_imp_distinct_iff)
  have all_times: "rev (map (\<lambda>i. tc ! i) pool) = sort tc"
  proof (rule properties_for_sort [symmetric])
    have "mset (map (\<lambda>i. tc ! i) pool) = image_mset (\<lambda>i. tc ! i) (mset pool)"
      by simp
    also have "\<dots> = image_mset (\<lambda>i. tc ! i) (mset [0..<length tc])"
      unfolding pool_def by (simp only: rows)
    also have "\<dots> = mset (map (\<lambda>i. tc ! i) [0..<length tc])"
      by (simp only: mset_map)
    also have "\<dots> = mset tc" by (simp only: map_nth)
    finally show "mset (rev (map (\<lambda>i. tc ! i) pool)) = mset tc" by simp
    from srt show "sorted (rev (map (\<lambda>i. tc ! i) pool))" unfolding pool_def .
  qed
  have times: "map (\<lambda>i. tc ! i) (concat (rev (map corresponding_indices results)))
      = drop (length tc - N) (sort tc)"
  proof -
    have "map (\<lambda>i. tc ! i) (rev (take N pool)) = rev (take N (map (\<lambda>i. tc ! i) pool))"
      by (simp add: rev_map take_map)
    also have "\<dots> = drop (length (map (\<lambda>i. tc ! i) pool) - N) (rev (map (\<lambda>i. tc ! i) pool))"
      by (rule rev_take)
    also have "\<dots> = drop (length tc - N) (sort tc)"
      unfolding all_times using len by simp
    finally show ?thesis unfolding backwards .
  qed
  have ordered: "sorted (map (\<lambda>i. tc ! i) (concat (rev (map corresponding_indices results))))"
    unfolding times by (rule sorted_wrt_drop) simp
  show ?thesis
    by (intro exI conjI) (rule run, rule run2, rule sizes,
      rule times [unfolded tc_def N_def], rule ordered [unfolded tc_def], rule once)
qed

theorem time_series_split_order_witness:
  "permuting (\<lambda>i xs. xs)
   \<and> ds_is_regression \<lparr>ds_rows = 6, ds_labels = [], ds_is_regression = True,
         ds_time_values = [1, 1, 2, 2, 3, 3]\<rparr>
   \<and> to_count 6 (Frac (1 / 2)) = Some 3 \<and> to_count 6 (Count 2) = Some 2
   \<and> sum_list [3, 2] < int (length [1, 1, 2, 2, 3, 3 :: int])
   \<and> fit (\<lambda>i xs. xs) (blank_splitter True False False)
         \<lparr>ds_rows = 6, ds_labels = [], ds_is_regression = True,
          ds_time_values = [1, 1, 2, 2, 3, 3]\<rparr> = (None, ts_example)
   \<and> fst (split_all (\<lambda>k i xs. xs) 0 ts_example [Frac (1 / 2), Count 2])
       = Inr [\<lparr>dataset_rows = [2, 5, 4], corresponding_indices = [2, 5, 4],
                remaining_indices = [3, 0, 1]\<rparr>,
              \<lparr>dataset_rows = [0, 3], corresponding_indices = [0, 3],
                remaining_indices = [1]\<rparr>]
   \<and> concat (rev [[2, 5, 4], [0, 3 :: nat]]) = [0, 3, 2, 5, 4]
   \<and> map (\<lambda>i. [1, 1, 2, 2, 3, 3 :: int] ! i) [0, 3, 2, 5, 4] = [1, 2, 2, 3, 3]
   \<and> (\<exists>s results s'.
         fit (\<lambda>i xs. xs) (blank_splitter True False False)
           \<lparr>ds_rows = 6, ds_labels = [], ds_is_regression = True,
            ds_time_values = [1, 1, 2, 2, 3, 3]\<rparr> = (None, s)
         \<and> split_all (\<lambda>k i xs. xs) 0 s [Frac (1 / 2), Count 2] = (Inr results, s')
         \<and> sorted (map (\<lambda>i. [1, 1, 2, 2, 3, 3 :: int] ! i)
               (concat (rev (map corresponding_indices results))))
         \<and> distinct (concat (map corresponding_indices results)))"
proof -
  have reg: "ds_is_regression \<lparr>ds_rows = 6, ds_labels = [], ds_is_regression = True,
         ds_time_values = [1, 1, 2, 2, 3, 3]\<rparr>"
    by simp
  have cnt: "to_count 6 (Frac (1 / 2)) = Some 3" "to_count 6 (Count 2) = Some 2"
    by (simp_all add: to_count_def py_int_def)
  then have req: "list_all2
      (\<lambda>r n. to_count (ds_rows \<lparr>ds_rows = 6, ds_labels = [], ds_is_regression = True,
                 ds_time_values = [1, 1, 2, 2, 3, 3]\<rparr>) r = Some n \<and> 0 \<le> n)
      [Frac (1 / 2), Count 2] [3, 2]"
    by simp
  have below: "sum_list [3, 2]
      < int (length (ds_time_values \<lparr>ds_rows = 6, ds_labels = [], ds_is_regression = True,
         ds_time_values = [1, 1, 2, 2, 3, 3]\<rparr>))"
    by simp
  from time_series_split_order [OF permuting_id reg req below, of False "\<lambda>k i xs. xs"]
  obtain s results s' where
    a: "fit (\<lambda>i xs. xs) (blank_splitter True False False)
           \<lparr>ds_rows = 6, ds_labels = [], ds_is_regression = True,
            ds_time_values = [1, 1, 2, 2, 3, 3]\<rparr> = (None, s)"
    and b: "split_all (\<lambda>k i xs. xs) 0 s [Frac (1 / 2), Count 2] = (Inr results, s')"
    and c: "sorted (map (\<lambda>i. [1, 1, 2, 2, 3, 3 :: int] ! i)
               (concat (rev (map corresponding_indices results))))"
    and d: "distinct (concat (map corresponding_indices results))"
    by auto
  have general: "\<exists>s results s'.
         fit (\<lambda>i xs. xs) (blank_splitter True False False)
           \<lparr>ds_rows = 6, ds_labels = [], ds_is_regression = True,
            ds_time_values = [1, 1, 2, 2, 3, 3]\<rparr> = (None, s)
         \<and> split_all (\<lambda>k i xs. xs) 0 s [Frac (1 / 2), Count 2] = (Inr results, s')
         \<and> sorted (map (\<lambda>i. [1, 1, 2, 2, 3, 3 :: int] ! i)
               (concat (rev (map corresponding_indices results))))
         \<and> distinct (concat (map corresponding_indices results))"
    by (intro exI conjI) (rule a, rule b, rule c, rule d)
  have run: "fst (split_all (\<lambda>k i xs. xs) 0 ts_example [Frac (1 / 2), Count 2])
       = Inr [\<lparr>dataset_rows = [2, 5, 4], corresponding_indices = [2, 5, 4],
                remaining_indices = [3, 0, 1]\<rparr>,
              \<lparr>dataset_rows = [0, 3], corresponding_indices = [0, 3],
                remaining_indices = [1]\<rparr>]"
    by code_simp
  have vals: "concat (rev [[2, 5, 4], [0, 3 :: nat]]) = [0, 3, 2, 5, 4]"
    "map (\<lambda>i. [1, 1, 2, 2, 3, 3 :: int] ! i) [0, 3, 2, 5, 4] = [1, 2, 2, 3, 3]"
    by simp_all
  have small: "sum_list [3, 2] < int (length [1, 1, 2, 2, 3, 3 :: int])" by simp
  from permuting_id reg cnt small ts_example_fit run vals general
  show ?thesis by simp
qed

text \<open>
  Claim C4 as it was stated fails: every returned set is already in ascending time
  order (the method returns \<open>tgt_indices[::-1]\<close>), so reversing the concatenation
  reverses each set. Four rows with the times 1, 2, 3, 4, a split of 2 and then a
  split of 1: the calls return the rows 2, 3 and the row 1; concatenated in call order
  and then reversed this is 1, 3, 2, with the times 2, 4, 3.
\<close>

theorem time_series_order_counterexample:
  "fit (\<lambda>i xs. xs) (blank_splitter True False False)
      \<lparr>ds_rows = 4, ds_labels = [], ds_is_regression = True,
       ds_time_values = [1, 2, 3, 4]\<rparr>
     = (None,
        \<lparr>x_len = 4, labels = [], is_regression = True,
         time_column = Some [1, 2, 3, 4], is_time_series = True,
         shuffle = False, replace = False, remained_indices = Some [3, 2, 1, 0],
         time_indices_list = Some [[3], [2], [1], [0]],
         time_indices_list_in_use = Some [[3], [2], [1], [0]],
         label_indices_list = None, label_indices_list_in_use = None,
         times_counts_cumsum = [1, 2, 3, 4], times_counts_cumsum_in_use = [1, 2, 3, 4],
         time_series_sorting_indices = [0, 1, 2, 3], label_ratios = [],
         n_unique_labels = 0, n_samples = 0\<rparr>)
   \<and> fst (split_all (\<lambda>k i xs. xs) 0
         (snd (fit (\<lambda>i xs. xs) (blank_splitter True False False)
            \<lparr>ds_rows = 4, ds_labels = [], ds_is_regression = True,
             ds_time_values = [1, 2, 3, 4]\<rparr>))
         [Count 2, Count 1])
       = Inr [\<lparr>dataset_rows = [2, 3], corresponding_indices = [2, 3],
                remaining_indices = [1, 0]\<rparr>,
              \<lparr>dataset_rows = [1], corresponding_indices = [1],
                remaining_indices = [0]\<rparr>]
   \<and> rev (concat [[2, 3], [1 :: nat]]) = [1, 3, 2]
   \<and> map (\<lambda>i. [1, 2, 3, 4 :: int] ! i) [1, 3, 2] = [2, 4, 3]
   \<and> sorted [2, 4, 3 :: int] = False"
  by code_simp

section \<open>DataSplitter: what fit leaves for a classification dataset\<close>

text \<open>
  After \<open>fit\<close> on a classification dataset with labels, not all of them equal, a
  splitter without a time series configuration and without replacement is ready in
  the sense of \<open>clf_ready\<close>, with or without shuffling: the lists of the labels hold
  every row once.
\<close>

lemma fit_classification_ready:
  assumes perm: "permuting g" and clf: "\<not> ds_is_regression ds"
    and two: "length (remdups (ds_labels ds)) \<noteq> 1" and ne: "ds_labels ds \<noteq> []"
  shows "\<exists>s in_use. fit g (blank_splitter False sh False) ds = (None, s)
           \<and> clf_ready s in_use
           \<and> \<not> is_regression s \<and> \<not> is_time_series s
           \<and> remained_indices s = Some (concat in_use)
           \<and> x_len s = ds_rows ds
           \<and> mset (concat in_use) = mset [0..<length (ds_labels ds)]"
proof -
  define ls where "ls = ds_labels ds"
  define u where "u = sort (remdups ls)"
  define counts where "counts = map (count_list ls) u"
  define idx where "idx = map (\<lambda>v. filter (\<lambda>i. ls ! i = v) [0..<length ls]) u"
  define ratios where "ratios = map (\<lambda>c. rat_of_nat c / rat_of_nat (length ls)) counts"
  define in_use where "in_use = shuffled_lists g sh idx"
  define s where "s =
     \<lparr>x_len = ds_rows ds, labels = ls, is_regression = False,
      time_column = None, is_time_series = False, shuffle = sh, replace = False,
      remained_indices = Some (concat in_use),
      time_indices_list = None, time_indices_list_in_use = None,
      label_indices_list = Some in_use, label_indices_list_in_use = Some in_use,
      times_counts_cumsum = [], times_counts_cumsum_in_use = [],
      time_series_sorting_indices = [], label_ratios = ratios,
      n_unique_labels = length u, n_samples = length ls\<rparr>"
  from ne have ls_ne: "ls \<noteq> []" unfolding ls_def .
  have set_u: "set u = set ls" and dist_u: "distinct u"
    unfolding u_def by simp_all
  from ls_ne set_u have u_ne: "u \<noteq> []" by auto
  from two have two': "length u \<noteq> 1" unfolding u_def ls_def by simp
  have gu: "get_unique_indices ls = (u, counts, idx)"
    by (simp add: get_unique_indices_def Let_def u_def counts_def idx_def)
  have len_in: "length in_use = length u"
    unfolding in_use_def idx_def by simp
  with u_ne have in_use_ne: "in_use \<noteq> []" by (cases in_use) auto
  have run: "fit g (blank_splitter False sh False) ds = (None, s)"
    unfolding fit_def reset_def reset_clf_def blank_splitter_def
    using clf two' in_use_ne
    by (simp add: ls_def [symmetric] gu Let_def in_use_def [symmetric] ratios_def [symmetric]
        np_hstack_def s_def)
  have all_rows: "mset (concat idx) = mset [0..<length ls]"
  proof -
    have "mset (concat idx) = mset (filter (\<lambda>i. ls ! i \<in> set u) [0..<length ls])"
      unfolding idx_def by (rule groups_mset [OF dist_u])
    also have "filter (\<lambda>i. ls ! i \<in> set u) [0..<length ls] = [0..<length ls]"
      unfolding set_u by (rule filter_True) simp
    finally show ?thesis .
  qed
  have rows: "mset (concat in_use) = mset [0..<length ls]"
    unfolding in_use_def shuffled_lists_concat [OF perm] by (rule all_rows)
  from rows have dist: "distinct (concat in_use)"
    by (metis distinct_upt mset_eq_imp_distinct_iff)
  from rows have "set (concat in_use) = set [0..<length ls]"
    by (rule mset_eq_setD)
  then have bound: "list_all (\<lambda>i. i < length ls) (concat in_use)"
    unfolding list_all_iff by simp
  have r0: "list_all (\<lambda>r. 0 \<le> r) ratios"
    unfolding list_all_iff ratios_def by auto
  have rdy: "clf_ready s in_use"
    unfolding clf_ready_def
    using in_use_ne len_in dist bound r0
    by (simp add: s_def ratios_def counts_def)
  have fields: "\<not> is_regression s" "\<not> is_time_series s"
    "remained_indices s = Some (concat in_use)" "x_len s = ds_rows ds"
    by (simp_all add: s_def)
  show ?thesis
    by (intro exI conjI) (rule run, rule rdy, rule fields, rule fields, rule fields,
      rule fields, rule rows [unfolded ls_def])
qed

end
